theory Spec2Isabelle
  imports Complex_Main
begin

section \<open>KML 3D viewer: folder tree, toggle engine, entity reconciliation, visibility\<close>

text \<open>
  A shallow embedding of the viewer's application script.  JavaScript numbers are read
  as real numbers (no NaN: an absent or non-finite number is \<open>None\<close>), a string is a
  list of 8-bit characters, a JS \<open>Map\<close>
  is an association list in insertion order with distinct keys, node ids \<open>n1, n2, ...\<close>
  are the natural numbers \<open>1, 2, ...\<close>, and an entity of the renderer's collection is
  referred to through its \<open>id\<close>.  The DOM and the renderer are external: an element
  carries its tag, the text of its direct \<open>name\<close> child, its first coordinate and its
  child elements.
\<close>

subsection \<open>Geo-Key\<close>

record lonlat =
  lon :: real
  lat :: real

text \<open>
  \<open>roundCoord(n, digits)\<close>; \<open>Math.round\<close> rounds half up.  The arithmetic is exact: the
  code computes \<open>n * p\<close> in IEEE double precision, so where that product is not
  representable and lies next to a half (as at \<open>-2.000065\<close> with five digits) the code may
  round to the other neighbour than the definition does.  The coordinates at which the
  definitions are evaluated below (\<open>1\<close>, \<open>2\<close> and \<open>1.000001\<close>) are not of that kind; the
  properties stated for all inputs do not depend on the value of a key.
\<close>

definition roundCoord :: "real option \<Rightarrow> nat \<Rightarrow> real option" where
  "roundCoord n digits =
     (case n of
        None \<Rightarrow> None
      | Some v \<Rightarrow> (let p = 10 ^ digits in Some (of_int \<lfloor>v * p + 1 / 2\<rfloor> / p)))"

text \<open>
  Number-to-string conversion of a template literal, on the values \<open>roundCoord\<close>
  yields with five digits: the decimal expansion with at most five fractional digits
  and no trailing zeros.  This is what the code prints for a magnitude below \<open>10^21\<close>;
  from there on the code prints the exponent form, which the definition does not follow.
\<close>

definition digitChar :: "nat \<Rightarrow> char" where
  "digitChar d = ''0123456789'' ! (d mod 10)"

fun natToString :: "nat \<Rightarrow> string" where
  "natToString n =
     (if n < 10 then [digitChar n] else natToString (n div 10) @ [digitChar (n mod 10)])"

declare natToString.simps [simp del]

definition fracToString :: "nat \<Rightarrow> string" where
  "fracToString f =
     rev (dropWhile (\<lambda>c. c = CHR ''0'')
       (rev (map (\<lambda>e. digitChar (f div 10 ^ e)) [4, 3, 2, 1, 0])))"

definition numToString :: "real \<Rightarrow> string" where
  "numToString x =
     (let k = \<lfloor>x * 100000 + 1 / 2\<rfloor>;
          a = nat \<bar>k\<bar>;
          ip = a div 100000;
          fp = a mod 100000
      in (if k < 0 then ''-'' else '''') @ natToString ip
         @ (if fp = 0 then '''' else ''.'' @ fracToString fp))"

definition coordKey :: "real option \<Rightarrow> real option \<Rightarrow> string option" where
  "coordKey lon' lat' =
     (let lo = roundCoord lon' 5; la = roundCoord lat' 5
      in case (lo, la) of
           (Some lo', Some la') \<Rightarrow> Some (numToString lo' @ '','' @ numToString la')
         | _ \<Rightarrow> None)"

text \<open>
  \<open>String.prototype.trim\<close>.  A string is a list of 8-bit characters, read as the code
  units below 256: of the white space and the line terminators that \<open>trim\<close> strips these
  are the tab, the line feed, the vertical tab, the form feed, the carriage return, the
  space and the no-break space.  The white space above that range (\<open>U+FEFF\<close> and the
  others) has no character in the model.
\<close>

definition isSpace :: "char \<Rightarrow> bool" where
  "isSpace c = (c \<in> {CHR '' '', CHR 0x09, CHR 0x0A, CHR 0x0B, CHR 0x0C, CHR 0x0D, CHR 0xA0})"

definition trim :: "string \<Rightarrow> string" where
  "trim s = rev (dropWhile isSpace (rev (dropWhile isSpace s)))"

definition placemarkKey :: "string \<Rightarrow> real option \<Rightarrow> real option \<Rightarrow> string" where
  "placemarkKey name lon' lat' =
     (let ck = coordKey lon' lat'; nm = trim name
      in case ck of Some k \<Rightarrow> nm @ ''|'' @ k | None \<Rightarrow> nm)"

definition haversineMeters :: "lonlat \<Rightarrow> lonlat \<Rightarrow> real" where
  "haversineMeters a b =
     (let toRad = (\<lambda>d. d * pi / 180);
          R = 6371000;
          dLat = toRad (lat b - lat a);
          dLon = toRad (lon b - lon a);
          lat1 = toRad (lat a);
          lat2 = toRad (lat b);
          s1 = sin (dLat / 2);
          s2 = sin (dLon / 2);
          h = s1 * s1 + cos lat1 * cos lat2 * s2 * s2
      in 2 * R * arcsin (min 1 (sqrt h)))"

subsection \<open>JS maps\<close>

type_synonym ('k, 'v) jsmap = "('k \<times> 'v) list"

text \<open>\<open>Map.set\<close>: an existing key keeps its place, a new key goes to the end.\<close>

fun mapSet :: "'k \<Rightarrow> 'v \<Rightarrow> ('k, 'v) jsmap \<Rightarrow> ('k, 'v) jsmap" where
  "mapSet k v [] = [(k, v)]"
| "mapSet k v ((k', v') # m) = (if k' = k then (k, v) # m else (k', v') # mapSet k v m)"

definition mapGet :: "('k, 'v) jsmap \<Rightarrow> 'k \<Rightarrow> 'v option" where
  "mapGet m k = map_of m k"

subsection \<open>Feature elements and tree nodes\<close>

datatype element =
  Element (tagName: string) (nameText: "string option") (firstCoord: "lonlat option")
    (childElements: "element list")

definition getChildFeatures :: "element \<Rightarrow> element list" where
  "getChildFeatures featureEl =
     filter (\<lambda>c. let t = tagName c in t = ''Folder'' \<or> t = ''Placemark'' \<or> t = ''Document'')
       (childElements featureEl)"

definition getFeatureName :: "element \<Rightarrow> string" where
  "getFeatureName featureEl =
     (case nameText featureEl of
        None \<Rightarrow> tagName featureEl
      | Some t \<Rightarrow> (if trim t = '''' then tagName featureEl else trim t))"

text \<open>
  \<open>firstCoordFromPlacemark\<close> reads the first coordinate tuple of the element's geometry
  through the DOM; the element carries its result.
\<close>

definition firstCoordFromPlacemark :: "element \<Rightarrow> lonlat option" where
  "firstCoordFromPlacemark placemarkEl = firstCoord placemarkEl"

type_synonym nodeId = nat

record node =
  nid :: nodeId
  parentId :: "nodeId option"
  name :: string
  tag :: string
  featureEl :: element
  children :: "nodeId list"
  checked :: bool
  indeterminate :: bool
  expanded :: bool
  placemarkKeys :: "string list"

record pminfo =
  placemarkEl :: element
  path :: "string list"

type_synonym arena = "(nodeId, node) jsmap"

text \<open>A field assignment on the node object stored under a key.\<close>

definition updateNode :: "nodeId \<Rightarrow> (node \<Rightarrow> node) \<Rightarrow> arena \<Rightarrow> arena" where
  "updateNode k f nodes = map (\<lambda>(i, n). if i = k then (i, f n) else (i, n)) nodes"

subsection \<open>Toggle math\<close>

text \<open>
  \<open>setCheckedRecursive\<close>: the function on a list of ids is the loop over
  \<open>node.children\<close> together with the recursive call it makes for each child.
\<close>

partial_function (option) setCheckedEach :: "nodeId list \<Rightarrow> bool \<Rightarrow> arena \<Rightarrow> arena option" where
  "setCheckedEach ids checked' nodes =
     (case ids of
        [] \<Rightarrow> Some nodes
      | nodeId # rest \<Rightarrow>
          (case mapGet nodes nodeId of
             None \<Rightarrow> setCheckedEach rest checked' nodes
           | Some node \<Rightarrow>
               Option.bind
                 (setCheckedEach (children node) checked'
                    (updateNode nodeId (\<lambda>n. n\<lparr>checked := checked', indeterminate := False\<rparr>) nodes))
                 (\<lambda>nodes'. setCheckedEach rest checked' nodes')))"

definition setCheckedRecursive :: "nodeId \<Rightarrow> bool \<Rightarrow> arena \<Rightarrow> arena option" where
  "setCheckedRecursive nodeId checked' nodes = setCheckedEach [nodeId] checked' nodes"

definition childStates :: "arena \<Rightarrow> node \<Rightarrow> (bool \<times> bool) list" where
  "childStates nodes node =
     map (\<lambda>childId. case mapGet nodes childId of
                 None \<Rightarrow> (False, False)
               | Some c \<Rightarrow> (checked c, indeterminate c)) (children node)"

definition recomputeNode :: "arena \<Rightarrow> node \<Rightarrow> node" where
  "recomputeNode nodes node =
     (if children node = [] then node\<lparr>indeterminate := False\<rparr>
      else
        let cs = childStates nodes node;
            allChecked = list_all (\<lambda>(c, ind). c \<and> \<not> ind) cs;
            allUnchecked = list_all (\<lambda>(c, ind). \<not> c \<and> \<not> ind) cs
        in if allChecked then node\<lparr>checked := True, indeterminate := False\<rparr>
           else if allUnchecked then node\<lparr>checked := False, indeterminate := False\<rparr>
           else node\<lparr>checked := True, indeterminate := True\<rparr>)"

partial_function (option) recomputeIndeterminateUp :: "nodeId \<Rightarrow> arena \<Rightarrow> arena option" where
  "recomputeIndeterminateUp currentId nodes =
     (case mapGet nodes currentId of
        None \<Rightarrow> Some nodes
      | Some node \<Rightarrow>
          (let nodes' = updateNode currentId (\<lambda>n. recomputeNode nodes n) nodes
           in case parentId node of
                None \<Rightarrow> Some nodes'
              | Some p \<Rightarrow> recomputeIndeterminateUp p nodes'))"

partial_function (option) setExpandedEach :: "nodeId list \<Rightarrow> bool \<Rightarrow> arena \<Rightarrow> arena option" where
  "setExpandedEach ids expanded' nodes =
     (case ids of
        [] \<Rightarrow> Some nodes
      | nodeId # rest \<Rightarrow>
          (case mapGet nodes nodeId of
             None \<Rightarrow> setExpandedEach rest expanded' nodes
           | Some node \<Rightarrow>
               if children node = [] then setExpandedEach rest expanded' nodes
               else
                 Option.bind
                   (setExpandedEach (children node) expanded'
                      (updateNode nodeId (\<lambda>n. n\<lparr>expanded := expanded'\<rparr>) nodes))
                   (\<lambda>nodes'. setExpandedEach rest expanded' nodes')))"

definition setExpandedRecursive :: "nodeId \<Rightarrow> bool \<Rightarrow> arena \<Rightarrow> arena option" where
  "setExpandedRecursive nodeId expanded' nodes = setExpandedEach [nodeId] expanded' nodes"

text \<open>The \<open>while (cur.parentId)\<close> loop of \<open>getEffectiveChecked\<close>.\<close>

partial_function (option) climbChecked :: "arena \<Rightarrow> node \<Rightarrow> bool option" where
  "climbChecked nodes cur =
     (case parentId cur of
        None \<Rightarrow> Some True
      | Some p \<Rightarrow>
          (case mapGet nodes p of
             None \<Rightarrow> Some False
           | Some cur' \<Rightarrow> if \<not> checked cur' then Some False else climbChecked nodes cur'))"

definition getEffectiveChecked :: "arena \<Rightarrow> nodeId \<Rightarrow> bool option" where
  "getEffectiveChecked nodes nodeId =
     (case mapGet nodes nodeId of
        None \<Rightarrow> Some False
      | Some cur \<Rightarrow> if \<not> checked cur then Some False else climbChecked nodes cur)"

subsection \<open>Building the tree\<close>

text \<open>\<open>Array.from(new Set(keys))\<close>: the first occurrence of each key stays.\<close>

definition dedupe :: "'a list \<Rightarrow> 'a list" where
  "dedupe xs = rev (remdups (rev xs))"

record bstate =
  nextN :: nat
  bNodes :: arena
  bIndex :: "(string, pminfo) jsmap"

text \<open>
  \<open>buildNode\<close> with the counter of \<open>nextIdFactory\<close> and the two maps of
  \<open>buildTreeFromKml\<close> passed as state; \<open>buildChildren\<close> is its loop over the child
  features.  The node object is entered in \<open>nodesById\<close> before its children are built,
  and its later field assignments are made on the stored entry.
\<close>

function buildNode :: "element \<Rightarrow> nodeId option \<Rightarrow> string list \<Rightarrow> bstate \<Rightarrow> node \<times> bstate"
  and buildChildren ::
    "element list \<Rightarrow> nodeId \<Rightarrow> string list \<Rightarrow> node \<Rightarrow> bstate \<Rightarrow> node \<times> bstate" where
  "buildNode el parentId' pathNames st =
     (let tag' = tagName el;
          name' = getFeatureName el;
          ident = nextN st;
          node = \<lparr>nid = ident, parentId = parentId', name = name', tag = tag', featureEl = el,
                  children = [], checked = True, indeterminate = False,
                  expanded = (tag' \<noteq> ''Placemark''), placemarkKeys = []\<rparr>;
          st1 = st\<lparr>nextN := ident + 1, bNodes := mapSet ident node (bNodes st)\<rparr>
      in if tag' = ''Placemark'' then
           let c = firstCoordFromPlacemark el;
               key = placemarkKey name' (map_option lon c) (map_option lat c);
               node1 = node\<lparr>placemarkKeys := [key]\<rparr>
           in (node1,
               st1\<lparr>bNodes := updateNode ident (\<lambda>_. node1) (bNodes st1),
                   bIndex := mapSet key \<lparr>placemarkEl = el, path = pathNames @ [name']\<rparr>
                               (bIndex st1)\<rparr>)
         else
           let (node1, st2) = buildChildren (getChildFeatures el) ident pathNames node st1;
               node2 = (if length (placemarkKeys node1) > 1
                        then node1\<lparr>placemarkKeys := dedupe (placemarkKeys node1)\<rparr>
                        else node1)
           in (node2, st2\<lparr>bNodes := updateNode ident (\<lambda>_. node2) (bNodes st2)\<rparr>))"
| "buildChildren [] ident pathNames node st = (node, st)"
| "buildChildren (childEl # rest) ident pathNames node st =
     (let childTag = tagName childEl;
          childName = getFeatureName childEl;
          childPath = (if childTag = ''Placemark'' then pathNames else pathNames @ [childName]);
          (childNode, st1) = buildNode childEl (Some ident) childPath st;
          node1 = node\<lparr>children := children node @ [nid childNode],
                       placemarkKeys := placemarkKeys node @ placemarkKeys childNode\<rparr>
      in buildChildren rest ident pathNames node1 st1)"
  by pat_completeness auto

lemma size_getChildFeatures: "size_list size (getChildFeatures el) < size el"
proof -
  have le: "size_list size (filter P xs) \<le> size_list size xs" for P and xs :: "element list"
    by (induction xs) auto
  show ?thesis
    unfolding getChildFeatures_def using le [of _ "childElements el"]
    by (cases el) (simp add: less_Suc_eq_le)
qed

termination buildNode
  by (relation "measure (\<lambda>x. case x of
          Inl (el, _) \<Rightarrow> size el
        | Inr (els, _) \<Rightarrow> size_list size els)")
     (auto simp: size_getChildFeatures)

definition buildTreeFromKml ::
    "element \<Rightarrow> arena \<times> nodeId \<times> (string, pminfo) jsmap" where
  "buildTreeFromKml rootFeatureEl =
     (let (rootNode, st) =
            buildNode rootFeatureEl None [getFeatureName rootFeatureEl]
              \<lparr>nextN = 1, bNodes = [], bIndex = []\<rparr>
      in (bNodes st, nid rootNode, bIndex st))"

text \<open>\<open>getElementsByTagName\<close>: the elements with the tag, in document order.\<close>

fun elementsByTagName :: "string \<Rightarrow> element \<Rightarrow> element list" where
  "elementsByTagName t (Element tg nm c kids) =
     (if tg = t then [Element tg nm c kids] else []) @ concat (map (elementsByTagName t) kids)"

definition findRootFeature :: "element \<Rightarrow> element option" where
  "findRootFeature xml =
     (case elementsByTagName ''Document'' xml of
        docEl # _ \<Rightarrow> Some docEl
      | [] \<Rightarrow>
          (case elementsByTagName ''Folder'' xml of
             folderEl # _ \<Rightarrow> Some folderEl
           | [] \<Rightarrow> None))"

subsection \<open>Entities and the session state\<close>

text \<open>
  An entity of the renderer.  \<open>position = Some None\<close> is a position property whose
  value is undefined at the current time, \<open>polyline = Some None\<close> a polyline without an
  array of positions; \<open>labelShow\<close> and \<open>billboardShow\<close> are the \<open>show\<close> flags of the
  label and of the billboard, when the entity has them.  An undefined name is the empty
  string, as every reader of \<open>e.name\<close> takes it.
\<close>

record entity =
  eid :: nat
  ename :: string
  position :: "lonlat option option"
  polyline :: "lonlat list option option"
  polygon :: bool
  eshow :: bool
  labelShow :: "bool option"
  billboardShow :: "bool option"

record candidate =
  entity :: entity
  coord :: "lonlat option"

record session =
  fileName :: "string option"
  xml :: "element option"
  rootFeature :: "element option"
  nodesById :: arena
  rootNodeId :: "nodeId option"
  entityIndex :: "(string, nat list) jsmap"
  placemarkIndex :: "(string, pminfo) jsmap"
  placemarkToEntity :: "(string, nat list) jsmap"
  filterText :: string
  userHasInteracted :: bool
  kmlDataSource :: "entity list option"
  hideLabels :: bool

definition initialState :: session where
  "initialState =
     \<lparr>fileName = None, xml = None, rootFeature = None, nodesById = [], rootNodeId = None,
      entityIndex = [], placemarkIndex = [], placemarkToEntity = [], filterText = [],
      userHasInteracted = False, kmlDataSource = None, hideLabels = False\<rparr>"

definition entitiesOf :: "session \<Rightarrow> entity list" where
  "entitiesOf s = (case kmlDataSource s of None \<Rightarrow> [] | Some ents \<Rightarrow> ents)"

subsection \<open>Entity indexing\<close>

definition firstCoordFromEntity :: "entity \<Rightarrow> lonlat option" where
  "firstCoordFromEntity e =
     (case position e of
        Some (Some c) \<Rightarrow> Some c
      | _ \<Rightarrow>
          (case polyline e of
             Some (Some (p # _)) \<Rightarrow> Some p
           | _ \<Rightarrow> None))"

definition getOrEmpty :: "('k, 'v list) jsmap \<Rightarrow> 'k \<Rightarrow> 'v list" where
  "getOrEmpty m k = (case mapGet m k of None \<Rightarrow> [] | Some arr \<Rightarrow> arr)"

definition indexEntity :: "entity \<Rightarrow> (string, nat list) jsmap \<Rightarrow> (string, nat list) jsmap" where
  "indexEntity e idx =
     (let name' = ename e;
          c = firstCoordFromEntity e;
          key = placemarkKey name' (map_option lon c) (map_option lat c);
          arr = getOrEmpty idx key
      in mapSet key (arr @ [eid e]) idx)"

definition rebuildEntityIndex :: "session \<Rightarrow> session" where
  "rebuildEntityIndex s =
     (case kmlDataSource s of
        None \<Rightarrow> s\<lparr>entityIndex := []\<rparr>
      | Some ents \<Rightarrow> s\<lparr>entityIndex := fold indexEntity ents []\<rparr>)"

subsection \<open>Matching placemarks to entities\<close>

definition hasGeometry :: "entity \<Rightarrow> bool" where
  "hasGeometry e = (\<not> (position e = None \<and> polyline e = None \<and> \<not> polygon e))"

definition poolEntity ::
    "entity \<Rightarrow> (string, candidate list) jsmap \<Rightarrow> (string, candidate list) jsmap" where
  "poolEntity e byName =
     (if \<not> hasGeometry e then byName
      else
        let name' = trim (ename e);
            coord' = firstCoordFromEntity e;
            arr = getOrEmpty byName name'
        in mapSet name' (arr @ [\<lparr>entity = e, coord = coord'\<rparr>]) byName)"

text \<open>The distance loop; \<open>bestDist = None\<close> is \<open>Infinity\<close>.\<close>

fun nearest ::
    "lonlat \<Rightarrow> candidate list \<Rightarrow> real option \<Rightarrow> candidate option \<Rightarrow> candidate option" where
  "nearest pmCoord [] bestDist best = best"
| "nearest pmCoord (c # cs) bestDist best =
     (case coord c of
        None \<Rightarrow> nearest pmCoord cs bestDist best
      | Some cc \<Rightarrow>
          (let d = haversineMeters \<lparr>lon = lon pmCoord, lat = lat pmCoord\<rparr> cc
           in if (case bestDist of None \<Rightarrow> True | Some bd \<Rightarrow> d < bd)
              then nearest pmCoord cs (Some d) (Some c)
              else nearest pmCoord cs bestDist best))"

definition chooseBest :: "candidate list \<Rightarrow> lonlat option \<Rightarrow> candidate option" where
  "chooseBest candidates pmCoord =
     (if length candidates = 1 then Some (candidates ! 0)
      else if length candidates > 1 \<and> pmCoord \<noteq> None then
        (case nearest (the pmCoord) candidates None None of
           None \<Rightarrow> Some (candidates ! 0)
         | Some b \<Rightarrow> Some b)
      else None)"

text \<open>
  One turn of the loop over \<open>state.placemarkIndex.entries()\<close>, on the claim set \<open>used\<close>
  and the map being built.
\<close>

definition matchPlacemark ::
    "(string, candidate list) jsmap \<Rightarrow> (string, nat list) jsmap \<Rightarrow> string \<times> pminfo \<Rightarrow>
     nat set \<times> (string, nat list) jsmap \<Rightarrow> nat set \<times> (string, nat list) jsmap" where
  "matchPlacemark byName entityIndex' entry acc =
     (let (pmKey, info) = entry;
          (used, result) = acc;
          pmEl = placemarkEl info;
          pmName = getFeatureName pmEl;
          pmCoord = firstCoordFromPlacemark pmEl;
          candidates = filter (\<lambda>c. eid (entity c) \<notin> used) (getOrEmpty byName (trim pmName));
          best = chooseBest candidates pmCoord
      in case best of
           None \<Rightarrow>
             (case mapGet entityIndex' pmKey of
                None \<Rightarrow> (used, result)
              | Some exact \<Rightarrow>
                  if exact \<noteq> [] then (used \<union> set exact, mapSet pmKey exact result)
                  else (used, result))
         | Some b \<Rightarrow> (insert (eid (entity b)) used, mapSet pmKey [eid (entity b)] result))"

definition rebuildPlacemarkToEntityMap :: "session \<Rightarrow> session" where
  "rebuildPlacemarkToEntityMap s =
     (case kmlDataSource s of
        None \<Rightarrow> s\<lparr>placemarkToEntity := []\<rparr>
      | Some ents \<Rightarrow>
          if placemarkIndex s = [] then s\<lparr>placemarkToEntity := []\<rparr>
          else
            let byName = fold poolEntity ents [];
                (used, result) =
                  fold (matchPlacemark byName (entityIndex s)) (placemarkIndex s) ({}, [])
            in s\<lparr>placemarkToEntity := result\<rparr>)"

subsection \<open>Visibility\<close>

definition setAdd :: "'a \<Rightarrow> 'a list \<Rightarrow> 'a list" where
  "setAdd k ks = (if k \<in> set ks then ks else ks @ [k])"

text \<open>The loop over \<open>state.nodesById.values()\<close> that collects the enabled keys.\<close>

fun collectEnabled :: "arena \<Rightarrow> (nodeId \<times> node) list \<Rightarrow> string list \<Rightarrow> string list option" where
  "collectEnabled nodes [] enabledKeys = Some enabledKeys"
| "collectEnabled nodes ((i, node) # rest) enabledKeys =
     (if tag node = ''Placemark'' then
        (case getEffectiveChecked nodes (nid node) of
           None \<Rightarrow> None
         | Some effective \<Rightarrow>
             collectEnabled nodes rest
               (fold (\<lambda>k ks. if effective then setAdd k ks else ks) (placemarkKeys node)
                  enabledKeys))
      else collectEnabled nodes rest enabledKeys)"

text \<open>\<open>e.show = true\<close> on every entity of an array of entity references.\<close>

definition showEntities :: "nat list \<Rightarrow> entity list \<Rightarrow> entity list" where
  "showEntities ids ents = map (\<lambda>e. if eid e \<in> set ids then e\<lparr>eshow := True\<rparr> else e) ents"

definition showEnabled :: "(string, nat list) jsmap \<Rightarrow> string \<Rightarrow> entity list \<Rightarrow> entity list" where
  "showEnabled m key ents =
     (case mapGet m key of None \<Rightarrow> ents | Some entities \<Rightarrow> showEntities entities ents)"

definition applyLabels :: "bool \<Rightarrow> entity \<Rightarrow> entity" where
  "applyLabels hide e =
     e\<lparr>labelShow := (case labelShow e of None \<Rightarrow> None | Some _ \<Rightarrow> Some (\<not> hide)),
       billboardShow := (case billboardShow e of None \<Rightarrow> None | Some _ \<Rightarrow> Some (\<not> hide))\<rparr>"

definition applyVisibilityFromTree :: "session \<Rightarrow> session option" where
  "applyVisibilityFromTree s =
     (case kmlDataSource s of
        None \<Rightarrow> Some s
      | Some _ \<Rightarrow>
          (case collectEnabled (nodesById s) (nodesById s) [] of
             None \<Rightarrow> None
           | Some enabledKeys \<Rightarrow>
               (let s1 = (if placemarkToEntity s = [] then rebuildPlacemarkToEntityMap s else s);
                    mappedCount = length (placemarkToEntity s1);
                    ents = entitiesOf s1
                in if mappedCount = 0 then
                     Some (s1\<lparr>kmlDataSource := Some (map (\<lambda>e. e\<lparr>eshow := True\<rparr>) ents)\<rparr>)
                   else
                     let ents1 =
                           (if userHasInteracted s1 then
                              fold (showEnabled (placemarkToEntity s1)) enabledKeys
                                (map (\<lambda>e. e\<lparr>eshow := False\<rparr>) ents)
                            else map (\<lambda>e. e\<lparr>eshow := True\<rparr>) ents);
                         ents2 = map (applyLabels (hideLabels s1)) ents1
                     in Some (s1\<lparr>kmlDataSource := Some ents2\<rparr>))))"

subsection \<open>Loading a document\<close>

text \<open>
  What a load reads from outside: the file's name, the document the XML parser returns
  for its text, and the entities the renderer's loader returns for it (\<open>None\<close> when the
  loader rejects).
\<close>

record kmlFile =
  fname :: string
  parsed :: element
  rendered :: "entity list option"

datatype loadError = KmlParseError | NoRootFeature | RendererRejected

text \<open>The loop of \<open>loadKml\<close> that expands every node but the placemarks.\<close>

definition expandFolders :: "arena \<Rightarrow> arena" where
  "expandFolders nodes =
     map (\<lambda>(i, n). if tag n \<noteq> ''Placemark'' then (i, n\<lparr>expanded := True\<rparr>) else (i, n)) nodes"

text \<open>
  \<open>loadKml\<close> returns the error thrown, if any, with the state as the load leaves it;
  the outer \<open>None\<close> is a projection that does not return. Of the result of
  \<open>buildTreeFromKml\<close> the function destructures the arena and the root id only, so
  the placemark index is not stored. The list of data sources of the viewer and the
  camera are outside the model.
\<close>

definition loadKml :: "kmlFile \<Rightarrow> session \<Rightarrow> (loadError option \<times> session) option" where
  "loadKml file s =
     (let xml' = parsed file in
      if elementsByTagName ''parsererror'' xml' \<noteq> [] then Some (Some KmlParseError, s)
      else
        case findRootFeature xml' of
          None \<Rightarrow> Some (Some NoRootFeature, s)
        | Some rootEl \<Rightarrow>
            (let s1 = s\<lparr>fileName := Some (fname file), xml := Some xml',
                        rootFeature := Some rootEl, filterText := []\<rparr>;
                 (nodesById', rootNodeId', placemarkIndex') = buildTreeFromKml rootEl;
                 s2 = s1\<lparr>nodesById := nodesById', rootNodeId := Some rootNodeId'\<rparr>;
                 s3 = s2\<lparr>nodesById := expandFolders (nodesById s2)\<rparr>
             in case rendered file of
                  None \<Rightarrow> Some (Some RendererRejected, s3)
                | Some ents \<Rightarrow>
                    (let s4 = s3\<lparr>kmlDataSource := Some ents\<rparr>;
                         s5 = rebuildEntityIndex s4;
                         s6 = rebuildPlacemarkToEntityMap s5
                     in case applyVisibilityFromTree s6 of
                          None \<Rightarrow> None
                        | Some s7 \<Rightarrow> Some (None, s7))))"

subsection \<open>The handlers of the user interface\<close>

definition checkAll :: "session \<Rightarrow> session option" where
  "checkAll s =
     (case rootNodeId s of
        None \<Rightarrow> Some s
      | Some rootId \<Rightarrow>
          (case setCheckedRecursive rootId True (nodesById s) of
             None \<Rightarrow> None
           | Some nodes' \<Rightarrow>
               applyVisibilityFromTree (s\<lparr>nodesById := nodes', userHasInteracted := True\<rparr>)))"

definition uncheckAll :: "session \<Rightarrow> session option" where
  "uncheckAll s =
     (case rootNodeId s of
        None \<Rightarrow> Some s
      | Some rootId \<Rightarrow>
          (case setCheckedRecursive rootId False (nodesById s) of
             None \<Rightarrow> None
           | Some nodes' \<Rightarrow>
               (let nodes'' =
                      updateNode rootId (\<lambda>n. n\<lparr>checked := True, indeterminate := True\<rparr>) nodes'
                in applyVisibilityFromTree
                     (s\<lparr>nodesById := nodes'', userHasInteracted := True\<rparr>))))"

text \<open>The \<open>change\<close> handler of a node's check box.\<close>

definition toggleChecked :: "nodeId \<Rightarrow> bool \<Rightarrow> session \<Rightarrow> session option" where
  "toggleChecked ident value' s =
     (case mapGet (nodesById s) ident of
        None \<Rightarrow> Some s
      | Some node \<Rightarrow>
          (case setCheckedRecursive ident value' (nodesById s) of
             None \<Rightarrow> None
           | Some nodes1 \<Rightarrow>
               (case (case parentId node of
                        None \<Rightarrow> Some nodes1
                      | Some p \<Rightarrow> recomputeIndeterminateUp p nodes1) of
                  None \<Rightarrow> None
                | Some nodes2 \<Rightarrow>
                    applyVisibilityFromTree
                      (s\<lparr>nodesById := nodes2, userHasInteracted := True\<rparr>))))"

definition hideLabelsChanged :: "bool \<Rightarrow> session \<Rightarrow> session option" where
  "hideLabelsChanged v s = applyVisibilityFromTree (s\<lparr>hideLabels := v\<rparr>)"

declare setCheckedEach.simps [code]
declare setExpandedEach.simps [code]
declare recomputeIndeterminateUp.simps [code]
declare climbChecked.simps [code]

section \<open>Vocabulary of the properties\<close>

subsection \<open>Well-formed trees\<close>

text \<open>
  The shape of an arena that \<open>buildTreeFromKml\<close> makes: the keys are distinct, every
  node is stored under its own id, the root is the one node without a parent, a parent
  has a smaller id than its children and lists them, every listed child is in the arena
  and points back, and a placemark has no children.
\<close>

definition nodeOk :: "arena \<Rightarrow> nodeId \<Rightarrow> nodeId \<times> node \<Rightarrow> bool" where
  "nodeOk nodes rootId e =
     (case e of (i, n) \<Rightarrow>
        nid n = i
        \<and> (case parentId n of
             None \<Rightarrow> i = rootId
           | Some p \<Rightarrow>
               i \<noteq> rootId \<and> p < i
               \<and> (case mapGet nodes p of None \<Rightarrow> False | Some pn \<Rightarrow> i \<in> set (children pn)))
        \<and> list_all
             (\<lambda>c. i < c
                  \<and> (case mapGet nodes c of None \<Rightarrow> False | Some cn \<Rightarrow> parentId cn = Some i))
             (children n)
        \<and> (tag n = ''Placemark'' \<longrightarrow> children n = []))"

definition wellFormed :: "arena \<Rightarrow> nodeId \<Rightarrow> bool" where
  "wellFormed nodes rootId =
     (distinct (map fst nodes) \<and> list_all (nodeOk nodes rootId) nodes
      \<and> mapGet nodes rootId \<noteq> None)"

text \<open>Parts of well-formedness: what makes the walks down and up the tree end.\<close>

definition childrenAbove :: "nat \<Rightarrow> arena \<Rightarrow> bool" where
  "childrenAbove B nodes = (\<forall>(i, n)\<in>set nodes. i < B \<and> (\<forall>c\<in>set (children n). i < c))"

definition parentsBelow :: "arena \<Rightarrow> bool" where
  "parentsBelow nodes = (\<forall>(i, n)\<in>set nodes. nid n = i \<and> (\<forall>p. parentId n = Some p \<longrightarrow> p < i))"

definition leafPlacemarks :: "arena \<Rightarrow> bool" where
  "leafPlacemarks nodes = (\<forall>(i, n)\<in>set nodes. tag n = ''Placemark'' \<longrightarrow> children n = [])"

text \<open>\<open>reaches nodes i j\<close>: \<open>j\<close> is \<open>i\<close> or lies below \<open>i\<close>, along the lists of children.\<close>

inductive reaches :: "arena \<Rightarrow> nodeId \<Rightarrow> nodeId \<Rightarrow> bool" for nodes :: arena where
  here: "reaches nodes i i"
| below: "mapGet nodes i = Some n \<Longrightarrow> c \<in> set (children n) \<Longrightarrow> reaches nodes c j
          \<Longrightarrow> reaches nodes i j"

text \<open>
  \<open>ancestorOrSelf nodes a i\<close>: \<open>a\<close> is \<open>i\<close> or an ancestor of \<open>i\<close>, along the parent
  references.  A node is effectively checked when all of these are in the arena and
  checked.
\<close>

inductive ancestorOrSelf :: "arena \<Rightarrow> nodeId \<Rightarrow> nodeId \<Rightarrow> bool" for nodes :: arena where
  self: "ancestorOrSelf nodes i i"
| up: "mapGet nodes i = Some n \<Longrightarrow> parentId n = Some p \<Longrightarrow> ancestorOrSelf nodes a p
       \<Longrightarrow> ancestorOrSelf nodes a i"

definition isChecked :: "arena \<Rightarrow> nodeId \<Rightarrow> bool" where
  "isChecked nodes i = (case mapGet nodes i of None \<Rightarrow> False | Some n \<Rightarrow> checked n)"

definition effective :: "arena \<Rightarrow> nodeId \<Rightarrow> bool" where
  "effective nodes i = (\<forall>a. ancestorOrSelf nodes a i \<longrightarrow> isChecked nodes a)"

text \<open>Two arenas of one shape differ in the toggle fields only.\<close>

definition shapeOf :: "node \<Rightarrow> node" where
  "shapeOf n = n\<lparr>checked := True, indeterminate := False, expanded := True\<rparr>"

definition shapeAll :: "arena \<Rightarrow> arena" where
  "shapeAll nodes = map (\<lambda>(i, n). (i, shapeOf n)) nodes"

definition sameShape :: "arena \<Rightarrow> arena \<Rightarrow> bool" where
  "sameShape a b = (shapeAll a = shapeAll b)"

text \<open>The nodes with an id in \<open>S\<close> set to \<open>checked = v\<close>, \<open>indeterminate = false\<close>.\<close>

definition markAll :: "nodeId set \<Rightarrow> bool \<Rightarrow> arena \<Rightarrow> arena" where
  "markAll S v nodes =
     map (\<lambda>(i, n). if i \<in> S then (i, n\<lparr>checked := v, indeterminate := False\<rparr>) else (i, n)) nodes"

text \<open>
  The tri-state condition: an indeterminate node is checked, is not a placemark, and
  has a child unless it is the root.  A fresh tree has every node checked and none
  indeterminate.
\<close>

definition triState :: "arena \<Rightarrow> nodeId \<Rightarrow> bool" where
  "triState nodes rootId =
     list_all (\<lambda>(i, n). indeterminate n \<longrightarrow>
                 checked n \<and> tag n \<noteq> ''Placemark'' \<and> (children n \<noteq> [] \<or> i = rootId)) nodes"

definition allFresh :: "arena \<Rightarrow> bool" where
  "allFresh nodes = list_all (\<lambda>(i, n). checked n \<and> \<not> indeterminate n) nodes"

definition rootIsFolder :: "arena \<Rightarrow> nodeId \<Rightarrow> bool" where
  "rootIsFolder nodes r = (case mapGet nodes r of None \<Rightarrow> False | Some n \<Rightarrow> tag n \<noteq> ''Placemark'')"

text \<open>What the toggle operations keep of a tree.\<close>

definition treeInv :: "arena \<Rightarrow> nodeId \<Rightarrow> bool" where
  "treeInv nodes r = (wellFormed nodes r \<and> triState nodes r \<and> rootIsFolder nodes r)"

subsection \<open>Segments of an arena under construction\<close>

text \<open>
  A segment of an arena as \<open>buildNode\<close> appends it: the ids \<open>lo, ..., hi - 1\<close> in order,
  every node fresh; the nodes listed in \<open>tops\<close> have the parent \<open>par\<close>, every other node
  has its parent inside the segment.
\<close>

definition entryOk :: "nodeId option \<Rightarrow> nodeId list \<Rightarrow> arena \<Rightarrow> nodeId \<Rightarrow> node \<Rightarrow> bool" where
  "entryOk par tops seg i n =
     (nid n = i \<and> checked n \<and> \<not> indeterminate n
      \<and> (tag n = ''Placemark'' \<longrightarrow> children n = [])
      \<and> (\<forall>c\<in>set (children n). i < c \<and> (\<exists>cn. mapGet seg c = Some cn \<and> parentId cn = Some i))
      \<and> (if i \<in> set tops then parentId n = par
         else \<exists>p pn. parentId n = Some p \<and> p < i \<and> mapGet seg p = Some pn
                \<and> i \<in> set (children pn)))"

definition builtSeg :: "nodeId option \<Rightarrow> nodeId list \<Rightarrow> nat \<Rightarrow> nat \<Rightarrow> arena \<Rightarrow> bool" where
  "builtSeg par tops lo hi seg =
     (map fst seg = [lo..<hi] \<and> set tops \<subseteq> {lo..<hi}
      \<and> (\<forall>i n. (i, n) \<in> set seg \<longrightarrow> entryOk par tops seg i n))"

subsection \<open>Sessions\<close>

text \<open>
  A session whose tree is well formed; before the first load there is no root and the
  arena is empty.  \<open>sessionInv\<close> adds what the toggle operations keep.
\<close>

definition sessionOk :: "session \<Rightarrow> bool" where
  "sessionOk s =
     (case rootNodeId s of
        None \<Rightarrow> nodesById s = []
      | Some r \<Rightarrow> wellFormed (nodesById s) r)"

definition sessionInv :: "session \<Rightarrow> bool" where
  "sessionInv s =
     (case rootNodeId s of
        None \<Rightarrow> nodesById s = []
      | Some r \<Rightarrow> treeInv (nodesById s) r)"

text \<open>
  The session after the attempt of \<open>applyVisibilityFromTree\<close> to rebuild an empty map,
  and the entities it then writes, given the enabled keys it has collected.
\<close>

definition withMap :: "session \<Rightarrow> session" where
  "withMap s = (if placemarkToEntity s = [] then rebuildPlacemarkToEntityMap s else s)"

definition projected :: "session \<Rightarrow> string list \<Rightarrow> entity list \<Rightarrow> entity list" where
  "projected s enabledKeys ents =
     (if placemarkToEntity (withMap s) = [] then map (\<lambda>e. e\<lparr>eshow := True\<rparr>) ents
      else map (applyLabels (hideLabels s))
             (if userHasInteracted s then
                fold (showEnabled (placemarkToEntity (withMap s))) enabledKeys
                  (map (\<lambda>e. e\<lparr>eshow := False\<rparr>) ents)
              else map (\<lambda>e. e\<lparr>eshow := True\<rparr>) ents))"

text \<open>The state of a load when it calls the renderer.\<close>

definition treeInstalled :: "kmlFile \<Rightarrow> element \<Rightarrow> session \<Rightarrow> session" where
  "treeInstalled file rootEl s =
     s\<lparr>fileName := Some (fname file), xml := Some (parsed file), rootFeature := Some rootEl,
       filterText := [], nodesById := expandFolders (fst (buildTreeFromKml rootEl)),
       rootNodeId := Some (fst (snd (buildTreeFromKml rootEl)))\<rparr>"

text \<open>
  The toggle operations as the presentation layer can call them, and a run of a list of
  them on a session.
\<close>

datatype toggleOp =
  SetCheckedRecursive nodeId bool
| RecomputeIndeterminateUp nodeId
| CheckAll
| UncheckAll
| ToggleChecked nodeId bool

fun applyOp :: "toggleOp \<Rightarrow> session \<Rightarrow> session option" where
  "applyOp (SetCheckedRecursive i v) s =
     map_option (\<lambda>nodes. s\<lparr>nodesById := nodes\<rparr>) (setCheckedRecursive i v (nodesById s))"
| "applyOp (RecomputeIndeterminateUp i) s =
     map_option (\<lambda>nodes. s\<lparr>nodesById := nodes\<rparr>) (recomputeIndeterminateUp i (nodesById s))"
| "applyOp CheckAll s = checkAll s"
| "applyOp UncheckAll s = uncheckAll s"
| "applyOp (ToggleChecked i v) s = toggleChecked i v s"

fun runOps :: "toggleOp list \<Rightarrow> session \<Rightarrow> session option" where
  "runOps [] s = Some s"
| "runOps (t # ts) s = (case applyOp t s of None \<Rightarrow> None | Some s' \<Rightarrow> runOps ts s')"

text \<open>
  The sessions that the program can be in: the initial one, and those that a load, a
  toggle operation or a change of the "hide labels" box leaves.
\<close>

inductive reachable :: "session \<Rightarrow> bool" where
  start: "reachable initialState"
| load: "reachable s \<Longrightarrow> loadKml file s = Some (res, s') \<Longrightarrow> reachable s'"
| toggle: "reachable s \<Longrightarrow> applyOp t s = Some s' \<Longrightarrow> reachable s'"
| labels: "reachable s \<Longrightarrow> hideLabelsChanged v s = Some s' \<Longrightarrow> reachable s'"

text \<open>A session that holds neither a placemark index nor a reconciliation map.\<close>

definition unmapped :: "session \<Rightarrow> bool" where
  "unmapped s = (placemarkIndex s = [] \<and> placemarkToEntity s = [])"

subsection \<open>Reconciliation\<close>

text \<open>The GeoKey under which \<open>rebuildEntityIndex\<close> files an entity.\<close>

definition entityKey :: "entity \<Rightarrow> string" where
  "entityKey e =
     placemarkKey (ename e) (map_option lon (firstCoordFromEntity e))
       (map_option lat (firstCoordFromEntity e))"

text \<open>
  The ids of the entities of a collection whose GeoKey is \<open>k\<close>, in the order of the
  collection.
\<close>

definition idsAt :: "entity list \<Rightarrow> string \<Rightarrow> nat list" where
  "idsAt ents k = map eid (filter (\<lambda>e. entityKey e = k) ents)"

text \<open>
  The candidate that the pool loop makes of an entity, and the candidates of the entities
  of a collection that have geometry and the trimmed name \<open>nm\<close>, in the order of the
  collection.
\<close>

definition candidateOf :: "entity \<Rightarrow> candidate" where
  "candidateOf e = \<lparr>entity = e, coord = firstCoordFromEntity e\<rparr>"

definition pooledAt :: "entity list \<Rightarrow> string \<Rightarrow> candidate list" where
  "pooledAt ents nm = map candidateOf (filter (\<lambda>e. hasGeometry e \<and> trim (ename e) = nm) ents)"

section \<open>Example documents\<close>

text \<open>
  A document with two placemarks of one name, the first with a coordinate and the second
  without; the tree and the placemark index that \<open>buildTreeFromKml\<close> returns for it.
\<close>

definition exSiteAt :: element where
  "exSiteAt = Element ''Placemark'' (Some ''Site'') (Some \<lparr>lon = 1, lat = 2\<rparr>) []"

definition exSiteBare :: element where
  "exSiteBare = Element ''Placemark'' (Some ''Site'') None []"

definition exDoc :: element where
  "exDoc = Element ''Document'' None None [exSiteAt, exSiteBare]"

definition exNodes :: arena where
  "exNodes =
     [(1, \<lparr>nid = 1, parentId = None, name = ''Document'', tag = ''Document'',
           featureEl = exDoc, children = [2, 3], checked = True, indeterminate = False,
           expanded = True, placemarkKeys = [''Site|1,2'', ''Site'']\<rparr>),
      (2, \<lparr>nid = 2, parentId = Some 1, name = ''Site'', tag = ''Placemark'',
           featureEl = exSiteAt, children = [], checked = True, indeterminate = False,
           expanded = False, placemarkKeys = [''Site|1,2'']\<rparr>),
      (3, \<lparr>nid = 3, parentId = Some 1, name = ''Site'', tag = ''Placemark'',
           featureEl = exSiteBare, children = [], checked = True, indeterminate = False,
           expanded = False, placemarkKeys = [''Site'']\<rparr>)]"

definition exIndex :: "(string, pminfo) jsmap" where
  "exIndex =
     [(''Site|1,2'', \<lparr>placemarkEl = exSiteAt, path = [''Document'', ''Site'']\<rparr>),
      (''Site'', \<lparr>placemarkEl = exSiteBare, path = [''Document'', ''Site'']\<rparr>)]"

text \<open>The example tree with the root unchecked, and a session that holds the tree.\<close>

definition exMasked :: arena where
  "exMasked = updateNode 1 (\<lambda>n. n\<lparr>checked := False\<rparr>) exNodes"

definition exSession :: session where
  "exSession = initialState\<lparr>nodesById := exNodes, rootNodeId := Some 1\<rparr>"

text \<open>
  Three entities named as the placemarks are: one with a point, a label and a
  billboard, one with a polygon only, and one without geometry.
\<close>

definition exPoint :: entity where
  "exPoint =
     \<lparr>eid = 7, ename = ''Site'', position = Some (Some \<lparr>lon = 1, lat = 2\<rparr>), polyline = None,
      polygon = False, eshow = True, labelShow = Some True, billboardShow = Some True\<rparr>"

definition exPolygon :: entity where
  "exPolygon =
     \<lparr>eid = 7, ename = ''Site'', position = None, polyline = None, polygon = True,
      eshow = True, labelShow = None, billboardShow = None\<rparr>"

definition exBare :: entity where
  "exBare =
     \<lparr>eid = 8, ename = ''Site'', position = None, polyline = None, polygon = False,
      eshow = True, labelShow = None, billboardShow = None\<rparr>"

text \<open>
  The file of the example document, for which the renderer returns the entity with the
  point, and the state a load of it leaves.
\<close>

definition exFile :: kmlFile where
  "exFile =
     \<lparr>fname = ''a.kml'', parsed = Element ''kml'' None None [exDoc], rendered = Some [exPoint]\<rparr>"

definition exLoaded :: session where
  "exLoaded =
     \<lparr>fileName = Some ''a.kml'', xml = Some (Element ''kml'' None None [exDoc]),
      rootFeature = Some exDoc, nodesById = exNodes, rootNodeId = Some 1,
      entityIndex = [(''Site|1,2'', [7])], placemarkIndex = [], placemarkToEntity = [],
      filterText = [], userHasInteracted = False, kmlDataSource = Some [exPoint],
      hideLabels = False\<rparr>"

text \<open>
  A session before any interaction, with a map that is not empty, the root unchecked
  and the entity hidden.
\<close>

definition exMapped :: session where
  "exMapped =
     initialState\<lparr>nodesById := exMasked, rootNodeId := Some 1,
       placemarkToEntity := [(''Site|1,2'', [7])],
       kmlDataSource := Some [exPoint\<lparr>eshow := False\<rparr>]\<rparr>"

text \<open>
  Sessions that hold the placemark index of the example document and a collection of one
  entity: the one with a polygon, and the one without geometry.
\<close>

definition exPolygonSession :: session where
  "exPolygonSession = initialState\<lparr>placemarkIndex := exIndex, kmlDataSource := Some [exPolygon]\<rparr>"

definition exBareSession :: session where
  "exBareSession = initialState\<lparr>placemarkIndex := exIndex, kmlDataSource := Some [exBare]\<rparr>"

text \<open>
  A session that holds the same placemark index and a collection of two entities: the one
  with the point and the one without geometry.
\<close>

definition exMixedSession :: session where
  "exMixedSession =
     initialState\<lparr>placemarkIndex := exIndex, kmlDataSource := Some [exPoint, exBare]\<rparr>"

text \<open>
  A second document, one empty folder: in a file that the renderer rejects, and in a
  file for which it returns no entity, with the state the load of that file leaves.
\<close>

definition exFolder :: element where
  "exFolder = Element ''Folder'' (Some ''Other'') None []"

definition exRejectedFile :: kmlFile where
  "exRejectedFile =
     \<lparr>fname = ''b.kml'', parsed = Element ''kml'' None None [exFolder], rendered = None\<rparr>"

definition exFolderFile :: kmlFile where
  "exFolderFile =
     \<lparr>fname = ''c.kml'', parsed = Element ''kml'' None None [exFolder], rendered = Some []\<rparr>"

definition exFolderLoaded :: session where
  "exFolderLoaded =
     \<lparr>fileName = Some ''c.kml'', xml = Some (Element ''kml'' None None [exFolder]),
      rootFeature = Some exFolder,
      nodesById =
        [(1, \<lparr>nid = 1, parentId = None, name = ''Other'', tag = ''Folder'', featureEl = exFolder,
              children = [], checked = True, indeterminate = False, expanded = True,
              placemarkKeys = []\<rparr>)],
      rootNodeId = Some 1, entityIndex = [], placemarkIndex = [], placemarkToEntity = [],
      filterText = [], userHasInteracted = False, kmlDataSource = Some [], hideLabels = False\<rparr>"

text \<open>
  A document with two placemarks of one name whose first coordinates round to the same
  five decimals, so that both have the GeoKey \<open>Site|1,2\<close>; its file, for which the
  renderer returns the entity at that point; and the state its load leaves.
\<close>

definition exTwinA :: element where
  "exTwinA = Element ''Placemark'' (Some ''Site'') (Some \<lparr>lon = 1, lat = 2\<rparr>) []"

definition exTwinB :: element where
  "exTwinB = Element ''Placemark'' (Some ''Site'') (Some \<lparr>lon = 1000001 / 1000000, lat = 2\<rparr>) []"

definition exTwinDoc :: element where
  "exTwinDoc = Element ''Document'' None None [exTwinA, exTwinB]"

definition exTwinNodes :: arena where
  "exTwinNodes =
     [(1, \<lparr>nid = 1, parentId = None, name = ''Document'', tag = ''Document'',
           featureEl = exTwinDoc, children = [2, 3], checked = True, indeterminate = False,
           expanded = True, placemarkKeys = [''Site|1,2'']\<rparr>),
      (2, \<lparr>nid = 2, parentId = Some 1, name = ''Site'', tag = ''Placemark'',
           featureEl = exTwinA, children = [], checked = True, indeterminate = False,
           expanded = False, placemarkKeys = [''Site|1,2'']\<rparr>),
      (3, \<lparr>nid = 3, parentId = Some 1, name = ''Site'', tag = ''Placemark'',
           featureEl = exTwinB, children = [], checked = True, indeterminate = False,
           expanded = False, placemarkKeys = [''Site|1,2'']\<rparr>)]"

definition exTwinFile :: kmlFile where
  "exTwinFile =
     \<lparr>fname = ''t.kml'', parsed = Element ''kml'' None None [exTwinDoc],
      rendered = Some [exPoint]\<rparr>"

definition exTwinLoaded :: session where
  "exTwinLoaded =
     \<lparr>fileName = Some ''t.kml'', xml = Some (Element ''kml'' None None [exTwinDoc]),
      rootFeature = Some exTwinDoc, nodesById = exTwinNodes, rootNodeId = Some 1,
      entityIndex = [(''Site|1,2'', [7])], placemarkIndex = [], placemarkToEntity = [],
      filterText = [], userHasInteracted = False, kmlDataSource = Some [exPoint],
      hideLabels = False\<rparr>"

text \<open>
  The document of the two colliding placemarks with a third placemark of the same name
  that has no coordinate; its tree and placemark index; and the session that holds them
  with the entity that has a polygon only, after the two indexes are rebuilt.
\<close>

definition exTripleDoc :: element where
  "exTripleDoc = Element ''Document'' None None [exTwinA, exTwinB, exSiteBare]"

definition exTripleNodes :: arena where
  "exTripleNodes =
     [(1, \<lparr>nid = 1, parentId = None, name = ''Document'', tag = ''Document'',
           featureEl = exTripleDoc, children = [2, 3, 4], checked = True,
           indeterminate = False, expanded = True, placemarkKeys = [''Site|1,2'', ''Site'']\<rparr>),
      (2, \<lparr>nid = 2, parentId = Some 1, name = ''Site'', tag = ''Placemark'',
           featureEl = exTwinA, children = [], checked = True, indeterminate = False,
           expanded = False, placemarkKeys = [''Site|1,2'']\<rparr>),
      (3, \<lparr>nid = 3, parentId = Some 1, name = ''Site'', tag = ''Placemark'',
           featureEl = exTwinB, children = [], checked = True, indeterminate = False,
           expanded = False, placemarkKeys = [''Site|1,2'']\<rparr>),
      (4, \<lparr>nid = 4, parentId = Some 1, name = ''Site'', tag = ''Placemark'',
           featureEl = exSiteBare, children = [], checked = True, indeterminate = False,
           expanded = False, placemarkKeys = [''Site'']\<rparr>)]"

definition exTripleIndex :: "(string, pminfo) jsmap" where
  "exTripleIndex =
     [(''Site|1,2'', \<lparr>placemarkEl = exTwinB, path = [''Document'', ''Site'']\<rparr>),
      (''Site'', \<lparr>placemarkEl = exSiteBare, path = [''Document'', ''Site'']\<rparr>)]"

definition exTripleSession :: session where
  "exTripleSession =
     rebuildPlacemarkToEntityMap
       (rebuildEntityIndex
          (initialState\<lparr>nodesById := exTripleNodes, rootNodeId := Some 1,
             placemarkIndex := exTripleIndex, kmlDataSource := Some [exPolygon]\<rparr>))"

section \<open>Properties\<close>

subsection \<open>Operations on an id that is not in the arena\<close>

text \<open>
  C9.  For every id that is not a key of the node arena, \<open>setCheckedRecursive\<close> and
  \<open>setExpandedRecursive\<close> return with the arena unchanged, \<open>recomputeIndeterminateUp\<close>
  returns with the arena unchanged, and \<open>getEffectiveChecked\<close> returns false.
\<close>

theorem absent_node_inert:
  assumes "mapGet nodes nodeId = None"
  shows "setCheckedRecursive nodeId v nodes = Some nodes
       \<and> setExpandedRecursive nodeId v nodes = Some nodes
       \<and> recomputeIndeterminateUp nodeId nodes = Some nodes
       \<and> getEffectiveChecked nodes nodeId = Some False"
proof -
  have "setCheckedEach [nodeId] v nodes = Some nodes"
    using assms by (simp add: setCheckedEach.simps)
  moreover have "setExpandedEach [nodeId] v nodes = Some nodes"
    using assms by (simp add: setExpandedEach.simps)
  moreover have "recomputeIndeterminateUp nodeId nodes = Some nodes"
    using assms by (simp add: recomputeIndeterminateUp.simps)
  moreover have "getEffectiveChecked nodes nodeId = Some False"
    using assms by (simp add: getEffectiveChecked_def)
  ultimately show ?thesis
    by (simp add: setCheckedRecursive_def setExpandedRecursive_def)
qed

theorem absent_node_inert_witness:
  "mapGet exNodes 9 = None
   \<and> setCheckedRecursive 9 False exNodes = Some exNodes
   \<and> setExpandedRecursive 9 False exNodes = Some exNodes
   \<and> recomputeIndeterminateUp 9 exNodes = Some exNodes
   \<and> getEffectiveChecked exNodes 9 = Some False"
proof -
  have h: "mapGet exNodes 9 = None"
    by (simp add: exNodes_def mapGet_def)
  show ?thesis
    using h absent_node_inert [OF h, of False] by simp
qed

subsection \<open>Evaluating the example document\<close>

lemmas key_defs =
  placemarkKey_def coordKey_def roundCoord_def numToString_def trim_def isSpace_def
  natToString.simps digitChar_def fracToString_def

lemma exDoc_tree: "buildTreeFromKml exDoc = (exNodes, 1, exIndex)"
  by (simp add: buildTreeFromKml_def exDoc_def exSiteAt_def exSiteBare_def exNodes_def
      exIndex_def getFeatureName_def getChildFeatures_def firstCoordFromPlacemark_def
      updateNode_def dedupe_def key_defs Let_def)

subsection \<open>Maps and arenas\<close>

lemma mapGet_updateNode:
  "mapGet (updateNode k f nodes) j = (if j = k then map_option f (mapGet nodes j) else mapGet nodes j)"
  by (induction nodes) (auto simp: mapGet_def updateNode_def)

lemma mapGet_markAll:
  "mapGet (markAll S v nodes) j =
     (if j \<in> S then map_option (\<lambda>n. n\<lparr>checked := v, indeterminate := False\<rparr>) (mapGet nodes j)
      else mapGet nodes j)"
  by (induction nodes) (auto simp: mapGet_def markAll_def)

lemma mapGet_in_set: "mapGet nodes i = Some n \<Longrightarrow> (i, n) \<in> set nodes"
  by (simp add: mapGet_def map_of_SomeD)

lemma mapGet_None_iff: "mapGet nodes i = None \<longleftrightarrow> i \<notin> fst ` set nodes"
  by (simp add: mapGet_def map_of_eq_None_iff)

lemma markAll_updateNode:
  "markAll S v (updateNode k (\<lambda>n. n\<lparr>checked := v, indeterminate := False\<rparr>) nodes)
     = markAll (insert k S) v nodes"
  by (auto simp: markAll_def updateNode_def)

lemma markAll_markAll: "markAll T v (markAll S v nodes) = markAll (S \<union> T) v nodes"
  by (auto simp: markAll_def)

lemma markAll_empty: "markAll {} v nodes = nodes"
  by (simp add: markAll_def)

lemma markAll_cong_keys:
  "(\<And>i. i \<in> fst ` set nodes \<Longrightarrow> (i \<in> S) = (i \<in> T)) \<Longrightarrow> markAll S v nodes = markAll T v nodes"
  by (auto simp: markAll_def intro!: map_cong) (force)+

subsection \<open>The cascade of \<open>setCheckedRecursive\<close>\<close>

lemma reaches_markAll_imp:
  "reaches (markAll S v nodes) i j \<Longrightarrow> reaches nodes i j"
proof (induction rule: reaches.induct)
  case (here i)
  show ?case by (rule reaches.here)
next
  case (below i n c j)
  from below.hyps(1) obtain n0 where "mapGet nodes i = Some n0" "children n0 = children n"
    by (auto simp: mapGet_markAll split: if_splits)
  with below show ?case by (auto intro: reaches.below)
qed

lemma reaches_markAll_imp2:
  "reaches nodes i j \<Longrightarrow> reaches (markAll S v nodes) i j"
proof (induction rule: reaches.induct)
  case (here i)
  show ?case by (rule reaches.here)
next
  case (below i n c j)
  from below.hyps(1) obtain n1 where "mapGet (markAll S v nodes) i = Some n1" "children n1 = children n"
    by (cases "i \<in> S") (auto simp: mapGet_markAll)
  with below show ?case by (auto intro: reaches.below)
qed

lemma reaches_markAll: "reaches (markAll S v nodes) i j = reaches nodes i j"
  using reaches_markAll_imp reaches_markAll_imp2 by blast

lemma reaches_absent: "mapGet nodes i = None \<Longrightarrow> reaches nodes i j \<longleftrightarrow> j = i"
  by (auto elim: reaches.cases intro: reaches.here)

lemma reaches_present:
  "mapGet nodes i = Some n \<Longrightarrow>
     {j. reaches nodes i j} = insert i (\<Union>c\<in>set (children n). {j. reaches nodes c j})"
  by (auto elim: reaches.cases intro: reaches.intros)

lemma setCheckedEach_Nil: "setCheckedEach [] v nodes = Some nodes"
  by (simp add: setCheckedEach.simps)

lemma setCheckedEach_Cons:
  "setCheckedEach (i # rest) v nodes
     = Option.bind (setCheckedEach [i] v nodes) (setCheckedEach rest v)"
  by (subst setCheckedEach.simps, subst (2) setCheckedEach.simps)
     (simp add: setCheckedEach_Nil split: option.splits)

lemma childrenAbove_markAll: "childrenAbove B (markAll S v nodes) = childrenAbove B nodes"
  by (auto simp: childrenAbove_def markAll_def split: if_splits)

lemma setCheckedEach_list:
  assumes step: "\<And>c nodes'. c \<in> set cs \<Longrightarrow> childrenAbove B nodes' \<Longrightarrow>
            setCheckedEach [c] v nodes' = Some (markAll {j. reaches nodes' c j} v nodes')"
    and "childrenAbove B nodes"
  shows "setCheckedEach cs v nodes = Some (markAll (\<Union>c\<in>set cs. {j. reaches nodes c j}) v nodes)"
  using assms
proof (induction cs arbitrary: nodes)
  case Nil
  then show ?case by (simp add: setCheckedEach_Nil markAll_empty)
next
  case (Cons c cs)
  let ?n1 = "markAll {j. reaches nodes c j} v nodes"
  have 1: "setCheckedEach [c] v nodes = Some ?n1"
    using Cons.prems by simp
  have 2: "childrenAbove B ?n1"
    using Cons.prems(2) by (simp add: childrenAbove_markAll)
  have 3: "setCheckedEach cs v ?n1 = Some (markAll (\<Union>c\<in>set cs. {j. reaches ?n1 c j}) v ?n1)"
    using Cons.IH [OF _ 2] Cons.prems(1) by simp
  show ?case
    by (subst setCheckedEach_Cons) (simp add: 1 3 reaches_markAll markAll_markAll Un_commute)
qed

lemma setCheckedEach_single:
  assumes "childrenAbove B nodes"
  shows "setCheckedEach [i] v nodes = Some (markAll {j. reaches nodes i j} v nodes)"
  using assms
proof (induction "B - i" arbitrary: i nodes rule: less_induct)
  case less
  show ?case
  proof (cases "mapGet nodes i")
    case None
    have "markAll {j. reaches nodes i j} v nodes = markAll {} v nodes"
      using None by (intro markAll_cong_keys) (auto simp: reaches_absent mapGet_None_iff)
    then show ?thesis
      using None by (subst setCheckedEach.simps) (simp add: setCheckedEach_Nil markAll_empty)
  next
    case (Some n)
    let ?n1 = "updateNode i (\<lambda>n. n\<lparr>checked := v, indeterminate := False\<rparr>) nodes"
    have n1: "?n1 = markAll {i} v nodes"
      using markAll_updateNode [of "{}" v i nodes] by (simp add: markAll_empty)
    have in_set: "(i, n) \<in> set nodes" using Some by (rule mapGet_in_set)
    then have ib: "i < B" and kids: "\<forall>c\<in>set (children n). i < c"
      using less.prems by (auto simp: childrenAbove_def)
    have ca: "childrenAbove B ?n1"
      using less.prems by (simp add: n1 childrenAbove_markAll)
    have "setCheckedEach (children n) v ?n1
            = Some (markAll (\<Union>c\<in>set (children n). {j. reaches ?n1 c j}) v ?n1)"
    proof (rule setCheckedEach_list [OF _ ca])
      fix c nodes'
      assume "c \<in> set (children n)" "childrenAbove B nodes'"
      then show "setCheckedEach [c] v nodes' = Some (markAll {j. reaches nodes' c j} v nodes')"
        using less.hyps [of c nodes'] kids ib by (simp add: diff_less_mono2)
    qed
    then have "setCheckedEach (children n) v ?n1
            = Some (markAll {j. reaches nodes i j} v nodes)"
      by (simp add: n1 reaches_markAll markAll_markAll reaches_present [OF Some])
    then show ?thesis
      using Some by (subst setCheckedEach.simps) (simp add: setCheckedEach_Nil)
  qed
qed

subsection \<open>Shapes\<close>

lemma shapeOf_fields [simp]:
  "nid (shapeOf n) = nid n" "parentId (shapeOf n) = parentId n" "children (shapeOf n) = children n"
  "tag (shapeOf n) = tag n" "placemarkKeys (shapeOf n) = placemarkKeys n"
  by (simp_all add: shapeOf_def)

lemma shapeOf_eqD:
  assumes "shapeOf n = shapeOf m"
  shows "nid n = nid m" "parentId n = parentId m" "children n = children m" "tag n = tag m"
    "placemarkKeys n = placemarkKeys m"
  using assms shapeOf_fields by metis+

lemma map_fst_shapeAll: "map fst (shapeAll nodes) = map fst nodes"
  by (induction nodes) (auto simp: shapeAll_def)

lemma mapGet_shapeAll: "mapGet (shapeAll nodes) j = map_option shapeOf (mapGet nodes j)"
  by (induction nodes) (auto simp: shapeAll_def mapGet_def)

lemma sameShape_keys: "sameShape a b \<Longrightarrow> map fst a = map fst b"
  unfolding sameShape_def using map_fst_shapeAll by metis

lemma sameShape_mapGet:
  "sameShape a b \<Longrightarrow> map_option shapeOf (mapGet a j) = map_option shapeOf (mapGet b j)"
  unfolding sameShape_def using mapGet_shapeAll by metis

lemma sameShape_refl: "sameShape a a"
  by (simp add: sameShape_def)

lemma sameShape_sym: "sameShape a b \<Longrightarrow> sameShape b a"
  by (simp add: sameShape_def)

lemma sameShape_trans: "sameShape a b \<Longrightarrow> sameShape b c \<Longrightarrow> sameShape a c"
  by (simp add: sameShape_def)

lemma nodeOk_shapeAll: "nodeOk (shapeAll nodes) r (i, shapeOf n) = nodeOk nodes r (i, n)"
  by (auto simp: nodeOk_def mapGet_shapeAll list_all_iff split: option.splits)

lemma wellFormed_shapeAll: "wellFormed (shapeAll nodes) r = wellFormed nodes r"
proof -
  have "list_all (nodeOk (shapeAll nodes) r) (shapeAll nodes) = list_all (nodeOk nodes r) nodes"
    by (auto simp: list_all_iff shapeAll_def nodeOk_shapeAll [unfolded shapeAll_def])
  then show ?thesis
    by (simp add: wellFormed_def map_fst_shapeAll mapGet_shapeAll)
qed

lemma sameShape_wellFormed: "sameShape a b \<Longrightarrow> wellFormed a r = wellFormed b r"
  unfolding sameShape_def using wellFormed_shapeAll by metis

lemma sameShape_updateNode:
  "(\<And>n. shapeOf (f n) = shapeOf n) \<Longrightarrow> sameShape nodes (updateNode k f nodes)"
  by (auto simp: sameShape_def shapeAll_def updateNode_def)

lemma sameShape_markAll: "sameShape nodes (markAll S v nodes)"
  by (auto simp: sameShape_def shapeAll_def markAll_def shapeOf_def)

lemma shapeOf_recomputeNode: "shapeOf (recomputeNode nodes n) = shapeOf n"
  by (simp add: recomputeNode_def shapeOf_def Let_def)

subsection \<open>Consequences of well-formedness\<close>

lemma wellFormed_nodeOk: "wellFormed nodes r \<Longrightarrow> (i, n) \<in> set nodes \<Longrightarrow> nodeOk nodes r (i, n)"
  by (auto simp: wellFormed_def list_all_iff)

lemma wellFormed_childrenAbove:
  assumes "wellFormed nodes r"
  shows "childrenAbove (Suc (Max (insert 0 (fst ` set nodes)))) nodes"
proof -
  have "i < Suc (Max (insert 0 (fst ` set nodes)))" if "(i, n) \<in> set nodes" for i n
  proof -
    have "i \<in> insert 0 (fst ` set nodes)" using that by force
    then have "i \<le> Max (insert 0 (fst ` set nodes))" by (intro Max_ge) auto
    then show ?thesis by simp
  qed
  moreover have "\<forall>c\<in>set (children n). i < c" if "(i, n) \<in> set nodes" for i n
    using wellFormed_nodeOk [OF assms that] by (auto simp: nodeOk_def list_all_iff)
  ultimately show ?thesis by (auto simp: childrenAbove_def)
qed

lemma setCheckedRecursive_wellFormed:
  "wellFormed nodes r \<Longrightarrow>
     setCheckedRecursive i v nodes = Some (markAll {j. reaches nodes i j} v nodes)"
  unfolding setCheckedRecursive_def
  by (rule setCheckedEach_single [OF wellFormed_childrenAbove])

lemma reaches_snoc:
  "reaches nodes a p \<Longrightarrow> mapGet nodes p = Some pn \<Longrightarrow> i \<in> set (children pn) \<Longrightarrow> reaches nodes a i"
  by (induction rule: reaches.induct) (auto intro: reaches.intros)

lemma mapGet_distinct: "distinct (map fst nodes) \<Longrightarrow> (i, n) \<in> set nodes \<Longrightarrow> mapGet nodes i = Some n"
  by (simp add: mapGet_def)

lemma root_reaches_all:
  assumes wf: "wellFormed nodes r"
  shows "(i, n) \<in> set nodes \<Longrightarrow> reaches nodes r i"
proof (induction i arbitrary: n rule: less_induct)
  case (less i)
  have ok: "nodeOk nodes r (i, n)" using wf less.prems by (rule wellFormed_nodeOk)
  show ?case
  proof (cases "parentId n")
    case None
    then show ?thesis using ok by (auto simp: nodeOk_def intro: reaches.here)
  next
    case (Some p)
    then obtain pn where p: "p < i" "mapGet nodes p = Some pn" "i \<in> set (children pn)"
      using ok by (auto simp: nodeOk_def split: option.splits)
    have "reaches nodes r p"
      using less.IH [OF p(1) mapGet_in_set [OF p(2)]] .
    then show ?thesis using p by (auto intro: reaches_snoc)
  qed
qed

subsection \<open>The climb of \<open>getEffectiveChecked\<close>\<close>

lemma ancestorOrSelf_unfold:
  "ancestorOrSelf nodes a i \<longleftrightarrow>
     a = i \<or> (\<exists>n p. mapGet nodes i = Some n \<and> parentId n = Some p \<and> ancestorOrSelf nodes a p)"
  by (auto elim: ancestorOrSelf.cases intro: ancestorOrSelf.intros)

lemma wellFormed_parentsBelow: "wellFormed nodes r \<Longrightarrow> parentsBelow nodes"
  unfolding parentsBelow_def
  using wellFormed_nodeOk by (fastforce simp: nodeOk_def split: option.splits)

lemma climbChecked_eq:
  assumes pb: "parentsBelow nodes"
  shows "(nid cur, cur) \<in> set nodes \<Longrightarrow>
     climbChecked nodes cur =
       Some (case parentId cur of
               None \<Rightarrow> True
             | Some p \<Rightarrow> \<forall>a. ancestorOrSelf nodes a p \<longrightarrow> isChecked nodes a)"
proof (induction "nid cur" arbitrary: cur rule: less_induct)
  case less
  show ?case
  proof (cases "parentId cur")
    case None
    then show ?thesis by (subst climbChecked.simps) simp
  next
    case (Some p)
    have plt: "p < nid cur" using pb less.prems Some by (auto simp: parentsBelow_def)
    show ?thesis
    proof (cases "mapGet nodes p")
      case None
      then have "\<not> isChecked nodes p" by (simp add: isChecked_def)
      then have "\<not> (\<forall>a. ancestorOrSelf nodes a p \<longrightarrow> isChecked nodes a)"
        using ancestorOrSelf.self by blast
      then show ?thesis using Some None by (subst climbChecked.simps) simp
    next
      case (Some cur')
      note cur' = this
      have in': "(p, cur') \<in> set nodes" using cur' by (rule mapGet_in_set)
      then have nid': "nid cur' = p" using pb by (auto simp: parentsBelow_def)
      have IH: "climbChecked nodes cur' =
          Some (case parentId cur' of None \<Rightarrow> True
                | Some q \<Rightarrow> \<forall>a. ancestorOrSelf nodes a q \<longrightarrow> isChecked nodes a)"
        using less.hyps [of cur'] plt in' nid' by simp
      have spec: "(\<forall>a. ancestorOrSelf nodes a p \<longrightarrow> isChecked nodes a) \<longleftrightarrow>
          checked cur' \<and> (case parentId cur' of None \<Rightarrow> True
                | Some q \<Rightarrow> \<forall>a. ancestorOrSelf nodes a q \<longrightarrow> isChecked nodes a)"
        by (subst ancestorOrSelf_unfold) (auto simp: cur' isChecked_def split: option.splits)
      show ?thesis
        using \<open>parentId cur = Some p\<close> cur' IH spec by (subst climbChecked.simps) auto
    qed
  qed
qed

lemma getEffectiveChecked_eq:
  assumes pb: "parentsBelow nodes"
  shows "getEffectiveChecked nodes i = Some (\<forall>a. ancestorOrSelf nodes a i \<longrightarrow> isChecked nodes a)"
proof (cases "mapGet nodes i")
  case None
  then have "\<not> isChecked nodes i" by (simp add: isChecked_def)
  then have "\<not> (\<forall>a. ancestorOrSelf nodes a i \<longrightarrow> isChecked nodes a)"
    using ancestorOrSelf.self by blast
  then show ?thesis using None by (simp add: getEffectiveChecked_def)
next
  case (Some cur)
  have in': "(i, cur) \<in> set nodes" using Some by (rule mapGet_in_set)
  then have nid': "nid cur = i" using pb by (auto simp: parentsBelow_def)
  have spec: "(\<forall>a. ancestorOrSelf nodes a i \<longrightarrow> isChecked nodes a) \<longleftrightarrow>
      checked cur \<and> (case parentId cur of None \<Rightarrow> True
            | Some q \<Rightarrow> \<forall>a. ancestorOrSelf nodes a q \<longrightarrow> isChecked nodes a)"
    by (subst ancestorOrSelf_unfold) (auto simp: Some isChecked_def split: option.splits)
  show ?thesis
    using Some spec climbChecked_eq [OF pb, of cur] in' nid'
    by (auto simp: getEffectiveChecked_def)
qed

lemma root_ancestor_of_all:
  assumes wf: "wellFormed nodes r"
  shows "(i, n) \<in> set nodes \<Longrightarrow> ancestorOrSelf nodes r i"
proof (induction i arbitrary: n rule: less_induct)
  case (less i)
  have ok: "nodeOk nodes r (i, n)" using wf less.prems by (rule wellFormed_nodeOk)
  have get: "mapGet nodes i = Some n"
    using wf less.prems by (auto simp: wellFormed_def intro: mapGet_distinct)
  show ?case
  proof (cases "parentId n")
    case None
    then show ?thesis using ok by (auto simp: nodeOk_def intro: ancestorOrSelf.self)
  next
    case (Some p)
    then obtain pn where p: "p < i" "mapGet nodes p = Some pn"
      using ok by (auto simp: nodeOk_def split: option.splits)
    have "ancestorOrSelf nodes r p"
      using less.IH [OF p(1) mapGet_in_set [OF p(2)]] .
    then show ?thesis using get Some by (auto intro: ancestorOrSelf.up)
  qed
qed

subsection \<open>The walk of \<open>recomputeIndeterminateUp\<close>\<close>

lemma sameShape_parentsBelow: "sameShape a b \<Longrightarrow> parentsBelow a \<Longrightarrow> parentsBelow b"
proof -
  assume ss: "sameShape a b" and pb: "parentsBelow a"
  have "shapeAll a = shapeAll b" using ss by (simp add: sameShape_def)
  then have eq: "set (shapeAll a) = set (shapeAll b)" by simp
  { fix i n assume "(i, n) \<in> set b"
    then have "(i, shapeOf n) \<in> set (shapeAll b)" by (force simp: shapeAll_def)
    then have "(i, shapeOf n) \<in> set (shapeAll a)" using eq by simp
    then obtain m where "(i, m) \<in> set a" "shapeOf m = shapeOf n" by (auto simp: shapeAll_def)
    then have "nid n = i \<and> (\<forall>p. parentId n = Some p \<longrightarrow> p < i)"
      using pb shapeOf_eqD [of m n] by (fastforce simp: parentsBelow_def) }
  then show "parentsBelow b" by (auto simp: parentsBelow_def)
qed

lemma recomputeIndeterminateUp_returns:
  assumes "parentsBelow nodes"
  shows "\<exists>nodes'. recomputeIndeterminateUp i nodes = Some nodes' \<and> sameShape nodes nodes'"
  using assms
proof (induction i arbitrary: nodes rule: less_induct)
  case (less i)
  show ?case
  proof (cases "mapGet nodes i")
    case None
    then show ?thesis by (subst recomputeIndeterminateUp.simps) (simp add: sameShape_refl)
  next
    case (Some node)
    let ?n1 = "updateNode i (\<lambda>n. recomputeNode nodes n) nodes"
    have ss: "sameShape nodes ?n1"
      by (rule sameShape_updateNode) (rule shapeOf_recomputeNode)
    show ?thesis
    proof (cases "parentId node")
      case None
      then show ?thesis using Some ss by (subst recomputeIndeterminateUp.simps) (simp add: Let_def)
    next
      case (Some p)
      have "p < i" using less.prems mapGet_in_set [OF \<open>mapGet nodes i = Some node\<close>] Some
        by (auto simp: parentsBelow_def)
      then obtain nodes' where "recomputeIndeterminateUp p ?n1 = Some nodes'" "sameShape ?n1 nodes'"
        using less.IH [of p ?n1] sameShape_parentsBelow [OF ss less.prems] by blast
      then show ?thesis
        using \<open>mapGet nodes i = Some node\<close> Some ss
        by (subst recomputeIndeterminateUp.simps) (auto simp: Let_def intro: sameShape_trans)
    qed
  qed
qed

text \<open>An invariant P of arenas kept by each recompute step is kept by the walk.\<close>

lemma recomputeIndeterminateUp_invariant:
  assumes step: "\<And>nodes k. P nodes \<Longrightarrow> P (updateNode k (\<lambda>n. recomputeNode nodes n) nodes)"
    and "P nodes" and "recomputeIndeterminateUp i nodes = Some nodes'" and "parentsBelow nodes"
  shows "P nodes'"
  using assms(2-)
proof (induction i arbitrary: nodes rule: less_induct)
  case (less i)
  show ?case
  proof (cases "mapGet nodes i")
    case None
    then show ?thesis using less.prems by (subst (asm) recomputeIndeterminateUp.simps) simp
  next
    case (Some node)
    let ?n1 = "updateNode i (\<lambda>n. recomputeNode nodes n) nodes"
    have P1: "P ?n1" using less.prems(1) by (rule step)
    have ss: "sameShape nodes ?n1"
      by (rule sameShape_updateNode) (rule shapeOf_recomputeNode)
    show ?thesis
    proof (cases "parentId node")
      case None
      then show ?thesis using Some P1 less.prems(2)
        by (subst (asm) recomputeIndeterminateUp.simps) (simp add: Let_def)
    next
      case (Some p)
      have "p < i" using less.prems(3) mapGet_in_set [OF \<open>mapGet nodes i = Some node\<close>] Some
        by (auto simp: parentsBelow_def)
      moreover have "recomputeIndeterminateUp p ?n1 = Some nodes'"
        using less.prems(2) \<open>mapGet nodes i = Some node\<close> Some
        by (subst (asm) recomputeIndeterminateUp.simps) (simp add: Let_def)
      ultimately show ?thesis
        using less.IH [of p ?n1] P1 sameShape_parentsBelow [OF ss less.prems(3)] by blast
    qed
  qed
qed

lemma wellFormed_leafPlacemarks: "wellFormed nodes r \<Longrightarrow> leafPlacemarks nodes"
  unfolding leafPlacemarks_def using wellFormed_nodeOk by (fastforce simp: nodeOk_def)

lemma recomputeNode_triState:
  "tag n = ''Placemark'' \<longrightarrow> children n = [] \<Longrightarrow>
   indeterminate (recomputeNode nodes n) \<Longrightarrow>
     checked (recomputeNode nodes n) \<and> tag (recomputeNode nodes n) \<noteq> ''Placemark''
     \<and> children (recomputeNode nodes n) \<noteq> []"
  by (auto simp: recomputeNode_def Let_def split: if_splits)

lemma recompute_step_triState:
  assumes "triState nodes r \<and> leafPlacemarks nodes"
  shows "triState (updateNode k (\<lambda>n. recomputeNode nodes n) nodes) r
         \<and> leafPlacemarks (updateNode k (\<lambda>n. recomputeNode nodes n) nodes)"
proof -
  have lp: "leafPlacemarks (updateNode k (\<lambda>n. recomputeNode nodes n) nodes)"
    using assms by (auto simp: leafPlacemarks_def updateNode_def recomputeNode_def Let_def split: if_splits)
  have "triState (updateNode k (\<lambda>n. recomputeNode nodes n) nodes) r"
    unfolding triState_def list_all_iff
  proof (clarify)
    fix i n assume mem: "(i, n) \<in> set (updateNode k (\<lambda>n. recomputeNode nodes n) nodes)"
      and ind: "indeterminate n"
    from mem obtain m where m: "(i, m) \<in> set nodes" "n = (if i = k then recomputeNode nodes m else m)"
      by (auto simp: updateNode_def split: if_splits)
    show "checked n \<and> tag n \<noteq> ''Placemark'' \<and> (children n \<noteq> [] \<or> i = r)"
    proof (cases "i = k")
      case True
      have "tag m = ''Placemark'' \<longrightarrow> children m = []"
        using assms m(1) by (auto simp: leafPlacemarks_def)
      then show ?thesis using recomputeNode_triState [of m nodes] ind m(2) True by simp
    next
      case False
      then show ?thesis using assms m ind by (auto simp: triState_def list_all_iff)
    qed
  qed
  then show ?thesis using lp by simp
qed

lemma recomputeIndeterminateUp_triState:
  assumes "wellFormed nodes r" "triState nodes r" "recomputeIndeterminateUp i nodes = Some nodes'"
  shows "triState nodes' r"
proof -
  have "triState nodes' r \<and> leafPlacemarks nodes'"
    by (rule recomputeIndeterminateUp_invariant
          [where P = "\<lambda>ns. triState ns r \<and> leafPlacemarks ns", OF _ _ assms(3)])
       (use assms recompute_step_triState in \<open>auto intro: wellFormed_leafPlacemarks
          wellFormed_parentsBelow\<close>)
  then show ?thesis by simp
qed

lemma markAll_triState: "triState nodes r \<Longrightarrow> triState (markAll S v nodes) r"
  by (auto simp: triState_def list_all_iff markAll_def split: if_splits)

subsection \<open>The projection returns\<close>

lemma sessionOk_parentsBelow: "sessionOk s \<Longrightarrow> parentsBelow (nodesById s)"
proof (cases "rootNodeId s")
  case None
  then show "sessionOk s \<Longrightarrow> parentsBelow (nodesById s)"
    by (simp add: sessionOk_def parentsBelow_def)
next
  case (Some r)
  then show "sessionOk s \<Longrightarrow> parentsBelow (nodesById s)"
    by (simp add: sessionOk_def wellFormed_parentsBelow)
qed

lemma set_fold_setAdd:
  "set (fold (\<lambda>k ks. if e then setAdd k ks else ks) keys acc) = set acc \<union> (if e then set keys else {})"
  by (induction keys arbitrary: acc) (auto simp: setAdd_def)

lemma collectEnabled_returns:
  assumes "parentsBelow nodes"
  shows "\<exists>ks. collectEnabled nodes xs acc = Some ks
            \<and> set ks = set acc \<union> {k. \<exists>(i, n)\<in>set xs. tag n = ''Placemark''
                                    \<and> k \<in> set (placemarkKeys n) \<and> effective nodes (nid n)}"
proof (induction xs arbitrary: acc)
  case Nil
  then show ?case by simp
next
  case (Cons x xs)
  obtain i n where x: "x = (i, n)" by (cases x)
  show ?case
  proof (cases "tag n = ''Placemark''")
    case False
    then show ?thesis using Cons.IH [of acc] by (auto simp: x)
  next
    case True
    let ?e = "effective nodes (nid n)"
    let ?acc = "fold (\<lambda>k ks. if ?e then setAdd k ks else ks) (placemarkKeys n) acc"
    have g: "getEffectiveChecked nodes (nid n) = Some ?e"
      using getEffectiveChecked_eq [OF assms] by (simp add: effective_def)
    obtain ks where ks: "collectEnabled nodes xs ?acc = Some ks"
      "set ks = set ?acc \<union> {k. \<exists>(i, n)\<in>set xs. tag n = ''Placemark''
                                    \<and> k \<in> set (placemarkKeys n) \<and> effective nodes (nid n)}"
      using Cons.IH [of ?acc] by blast
    have "collectEnabled nodes (x # xs) acc = Some ks"
      using True g ks(1) by (simp add: x)
    moreover have "set ks = set acc \<union> {k. \<exists>(i, n)\<in>set (x # xs). tag n = ''Placemark''
                                    \<and> k \<in> set (placemarkKeys n) \<and> effective nodes (nid n)}"
      using True by (auto simp: ks(2) set_fold_setAdd x split: if_splits)
    ultimately show ?thesis by blast
  qed
qed

lemma rebuildPlacemarkToEntityMap_frame:
  "kmlDataSource (rebuildPlacemarkToEntityMap s) = kmlDataSource s"
  "nodesById (rebuildPlacemarkToEntityMap s) = nodesById s"
  "rootNodeId (rebuildPlacemarkToEntityMap s) = rootNodeId s"
  "userHasInteracted (rebuildPlacemarkToEntityMap s) = userHasInteracted s"
  "hideLabels (rebuildPlacemarkToEntityMap s) = hideLabels s"
  "placemarkIndex (rebuildPlacemarkToEntityMap s) = placemarkIndex s"
  "entityIndex (rebuildPlacemarkToEntityMap s) = entityIndex s"
  by (auto simp: rebuildPlacemarkToEntityMap_def Let_def split: option.splits prod.splits)

lemma withMap_frame:
  "kmlDataSource (withMap s) = kmlDataSource s"
  "nodesById (withMap s) = nodesById s"
  "rootNodeId (withMap s) = rootNodeId s"
  "userHasInteracted (withMap s) = userHasInteracted s"
  "hideLabels (withMap s) = hideLabels s"
  "placemarkIndex (withMap s) = placemarkIndex s"
  "entityIndex (withMap s) = entityIndex s"
  by (simp_all add: withMap_def rebuildPlacemarkToEntityMap_frame)

lemma applyVisibilityFromTree_returns:
  assumes "parentsBelow (nodesById s)" "kmlDataSource s = Some ents"
  shows "\<exists>ks. set ks = {k. \<exists>(i, n)\<in>set (nodesById s). tag n = ''Placemark''
                          \<and> k \<in> set (placemarkKeys n) \<and> effective (nodesById s) (nid n)}
            \<and> applyVisibilityFromTree s
                = Some ((withMap s)\<lparr>kmlDataSource := Some (projected s ks ents)\<rparr>)"
proof -
  obtain ks where ks: "collectEnabled (nodesById s) (nodesById s) [] = Some ks"
    "set ks = {k. \<exists>(i, n)\<in>set (nodesById s). tag n = ''Placemark''
                          \<and> k \<in> set (placemarkKeys n) \<and> effective (nodesById s) (nid n)}"
    using collectEnabled_returns [OF assms(1), of "nodesById s" "[]"] by auto
  have "applyVisibilityFromTree s = Some ((withMap s)\<lparr>kmlDataSource := Some (projected s ks ents)\<rparr>)"
    using assms(2) ks(1)
    by (simp add: applyVisibilityFromTree_def projected_def withMap_def [symmetric] Let_def
        entitiesOf_def withMap_frame)
  then show ?thesis using ks(2) by blast
qed

lemma applyVisibilityFromTree_None:
  "kmlDataSource s = None \<Longrightarrow> applyVisibilityFromTree s = Some s"
  by (simp add: applyVisibilityFromTree_def)

lemma applyVisibilityFromTree_nodes:
  assumes "parentsBelow (nodesById s)"
  shows "\<exists>s'. applyVisibilityFromTree s = Some s' \<and> nodesById s' = nodesById s
            \<and> rootNodeId s' = rootNodeId s \<and> userHasInteracted s' = userHasInteracted s"
proof (cases "kmlDataSource s")
  case None
  then show ?thesis by (simp add: applyVisibilityFromTree_None)
next
  case (Some ents)
  then show ?thesis
    using applyVisibilityFromTree_returns [OF assms Some] by (auto simp: withMap_frame)
qed

subsection \<open>Effective checked state\<close>

text \<open>
  C4.  In a well-formed tree \<open>getEffectiveChecked\<close> returns, and its result is true
  exactly when the node and every ancestor along the parent references is in the arena
  with \<open>checked = true\<close>; the chain of ancestors of a node of the tree ends at the root.
  One unchecked node on the chain makes the result false, whatever the others hold.
\<close>

theorem getEffectiveChecked_chain:
  assumes "wellFormed nodes rootId"
  shows "getEffectiveChecked nodes nodeId
           = Some (\<forall>a. ancestorOrSelf nodes a nodeId \<longrightarrow> isChecked nodes a)
       \<and> (mapGet nodes nodeId \<noteq> None \<longrightarrow> ancestorOrSelf nodes rootId nodeId)"
proof -
  have "mapGet nodes nodeId \<noteq> None \<longrightarrow> ancestorOrSelf nodes rootId nodeId"
    using root_ancestor_of_all [OF assms] by (auto dest: mapGet_in_set)
  then show ?thesis
    using getEffectiveChecked_eq [OF wellFormed_parentsBelow [OF assms]] by simp
qed

lemma exMasked_wellFormed: "wellFormed exMasked 1"
  by (simp add: exMasked_def updateNode_def wellFormed_def nodeOk_def exNodes_def mapGet_def)

theorem getEffectiveChecked_chain_witness:
  "wellFormed exMasked 1
   \<and> getEffectiveChecked exMasked 2 = Some False
   \<and> isChecked exMasked 2
   \<and> \<not> (\<forall>a. ancestorOrSelf exMasked a 2 \<longrightarrow> isChecked exMasked a)
   \<and> ancestorOrSelf exMasked 1 2"
proof -
  have g: "getEffectiveChecked exMasked 2 = Some False"
    by (simp add: getEffectiveChecked_def exMasked_def updateNode_def exNodes_def mapGet_def
        climbChecked.simps)
  have c: "isChecked exMasked 2"
    by (simp add: isChecked_def exMasked_def updateNode_def exNodes_def mapGet_def)
  have m: "mapGet exMasked 2 \<noteq> None"
    by (simp add: exMasked_def updateNode_def exNodes_def mapGet_def)
  show ?thesis
    using exMasked_wellFormed getEffectiveChecked_chain [OF exMasked_wellFormed, of 2] g c m
    by simp
qed

subsection \<open>Uncheck all\<close>

text \<open>
  C6.  On a well-formed tree the \<open>uncheckAll\<close> handler returns, changes no node's
  shape, and leaves every node but the root with \<open>checked = false\<close> and
  \<open>indeterminate = false\<close>, and the root with \<open>checked = true\<close> and
  \<open>indeterminate = true\<close>.
\<close>

theorem uncheckAll_result:
  assumes "rootNodeId s = Some r" and "wellFormed (nodesById s) r"
  shows "\<exists>s'. uncheckAll s = Some s'
           \<and> sameShape (nodesById s) (nodesById s')
           \<and> (\<forall>(i, n)\<in>set (nodesById s').
                 if i = r then checked n \<and> indeterminate n
                 else \<not> checked n \<and> \<not> indeterminate n)"
proof -
  let ?m = "markAll {j. reaches (nodesById s) r j} False (nodesById s)"
  let ?u = "updateNode r (\<lambda>n. n\<lparr>checked := True, indeterminate := True\<rparr>) ?m"
  have sc: "setCheckedRecursive r False (nodesById s) = Some ?m"
    using assms(2) by (rule setCheckedRecursive_wellFormed)
  have ss: "sameShape (nodesById s) ?u"
    by (rule sameShape_trans [OF sameShape_markAll sameShape_updateNode]) (simp add: shapeOf_def)
  then have "wellFormed ?u r" using assms(2) sameShape_wellFormed by blast
  then have pb: "parentsBelow (nodesById (s\<lparr>nodesById := ?u, userHasInteracted := True\<rparr>))"
    by (simp add: wellFormed_parentsBelow)
  obtain s' where s': "applyVisibilityFromTree (s\<lparr>nodesById := ?u, userHasInteracted := True\<rparr>) = Some s'"
    "nodesById s' = ?u"
    using applyVisibilityFromTree_nodes [OF pb] by auto
  have un: "uncheckAll s = Some s'"
    using assms(1) sc s'(1) by (simp add: uncheckAll_def)
  have all: "\<forall>(i, n)\<in>set (nodesById s). reaches (nodesById s) r i"
    using root_reaches_all [OF assms(2)] by blast
  have "\<forall>(i, n)\<in>set ?u. if i = r then checked n \<and> indeterminate n
                 else \<not> checked n \<and> \<not> indeterminate n"
    using all by (auto simp: updateNode_def markAll_def split: if_splits)
  then show ?thesis using un ss s'(2) by auto
qed

theorem uncheckAll_result_witness:
  "rootNodeId exSession = Some 1 \<and> wellFormed (nodesById exSession) 1
   \<and> (\<exists>s'. uncheckAll exSession = Some s'
           \<and> sameShape (nodesById exSession) (nodesById s')
           \<and> (\<forall>(i, n)\<in>set (nodesById s').
                 if i = 1 then checked n \<and> indeterminate n
                 else \<not> checked n \<and> \<not> indeterminate n))"
proof -
  have r: "rootNodeId exSession = Some 1"
    by (simp add: exSession_def initialState_def)
  have wf: "wellFormed (nodesById exSession) 1"
    by (simp add: exSession_def initialState_def wellFormed_def nodeOk_def exNodes_def mapGet_def)
  show ?thesis
    using r wf uncheckAll_result [OF r wf] by simp
qed

subsection \<open>The example file\<close>

lemma exDoc_root: "findRootFeature (Element ''kml'' None None [exDoc]) = Some exDoc"
  by (simp add: findRootFeature_def exDoc_def exSiteAt_def exSiteBare_def)

lemma exDoc_no_parsererror: "elementsByTagName ''parsererror'' exDoc = []"
  by (simp add: exDoc_def exSiteAt_def exSiteBare_def)

lemma exNodes_effective:
  "getEffectiveChecked exNodes 2 = Some True" "getEffectiveChecked exNodes 3 = Some True"
  by (simp_all add: getEffectiveChecked_def exNodes_def mapGet_def climbChecked.simps)

lemma exNodes_collect: "collectEnabled exNodes exNodes [] = Some [''Site|1,2'', ''Site'']"
  by (subst (2) exNodes_def) (simp add: exNodes_effective setAdd_def)

subsection \<open>The outcomes of a load\<close>

lemma rebuildPlacemarkToEntityMap_empty_index:
  "placemarkIndex s = [] \<Longrightarrow> rebuildPlacemarkToEntityMap s = s\<lparr>placemarkToEntity := []\<rparr>"
  by (simp add: rebuildPlacemarkToEntityMap_def split: option.splits)

lemma loadKml_parse_error:
  "elementsByTagName ''parsererror'' (parsed file) \<noteq> [] \<Longrightarrow>
     loadKml file s = Some (Some KmlParseError, s)"
  by (simp add: loadKml_def)

lemma loadKml_no_root:
  "elementsByTagName ''parsererror'' (parsed file) = [] \<Longrightarrow> findRootFeature (parsed file) = None
     \<Longrightarrow> loadKml file s = Some (Some NoRootFeature, s)"
  by (simp add: loadKml_def)

lemma loadKml_rejected:
  "elementsByTagName ''parsererror'' (parsed file) = [] \<Longrightarrow>
   findRootFeature (parsed file) = Some rootEl \<Longrightarrow> rendered file = None \<Longrightarrow>
     loadKml file s = Some (Some RendererRejected, treeInstalled file rootEl s)"
  by (cases s) (simp add: loadKml_def treeInstalled_def Let_def split: prod.splits)

lemma loadKml_rendered:
  "elementsByTagName ''parsererror'' (parsed file) = [] \<Longrightarrow>
   findRootFeature (parsed file) = Some rootEl \<Longrightarrow> rendered file = Some ents \<Longrightarrow>
     loadKml file s =
       map_option (Pair None)
         (applyVisibilityFromTree
            (rebuildPlacemarkToEntityMap
               (rebuildEntityIndex ((treeInstalled file rootEl s)\<lparr>kmlDataSource := Some ents\<rparr>))))"
  by (cases s) (simp add: loadKml_def treeInstalled_def Let_def split: prod.splits option.splits)

lemma exNodes_expanded: "expandFolders exNodes = exNodes"
  by (simp add: expandFolders_def exNodes_def)

lemma exFile_loaded: "loadKml exFile initialState = Some (None, exLoaded)"
proof -
  let ?s4 = "(treeInstalled exFile exDoc initialState)\<lparr>kmlDataSource := Some [exPoint]\<rparr>"
  have s4: "?s4 = exLoaded\<lparr>entityIndex := []\<rparr>"
    by (simp add: treeInstalled_def exDoc_tree exNodes_expanded initialState_def exLoaded_def
        exFile_def)
  have s5: "rebuildEntityIndex (exLoaded\<lparr>entityIndex := []\<rparr>) = exLoaded"
    by (simp add: rebuildEntityIndex_def indexEntity_def getOrEmpty_def mapGet_def exPoint_def
        firstCoordFromEntity_def key_defs exLoaded_def)
  have s6: "rebuildPlacemarkToEntityMap exLoaded = exLoaded"
    by (simp add: rebuildPlacemarkToEntityMap_empty_index exLoaded_def)
  have s7: "applyVisibilityFromTree exLoaded = Some exLoaded"
    by (simp add: applyVisibilityFromTree_def exLoaded_def exNodes_collect exPoint_def
        entitiesOf_def Let_def rebuildPlacemarkToEntityMap_def)
  have "loadKml exFile initialState =
       map_option (Pair None)
         (applyVisibilityFromTree (rebuildPlacemarkToEntityMap (rebuildEntityIndex ?s4)))"
    by (rule loadKml_rendered) (simp_all add: exFile_def exDoc_root exDoc_no_parsererror)
  then show ?thesis by (simp add: s4 s5 s6 s7)
qed

subsection \<open>Fail-open visibility\<close>

lemma applyLabels_fields [simp]:
  "eshow (applyLabels h e) = eshow e" "eid (applyLabels h e) = eid e"
  by (simp_all add: applyLabels_def)

text \<open>
  C2.  In a session whose tree is well formed the projection returns and keeps the
  collection's entities; when the map is empty after the attempt to rebuild it, or the
  user has not interacted yet, every entity ends with \<open>show = true\<close>, whatever the nodes'
  checked states are.
\<close>

theorem fail_open_visibility:
  assumes "sessionOk s"
    and "placemarkToEntity (withMap s) = [] \<or> \<not> userHasInteracted s"
  shows "\<exists>s'. applyVisibilityFromTree s = Some s'
           \<and> map eid (entitiesOf s') = map eid (entitiesOf s)
           \<and> (\<forall>e\<in>set (entitiesOf s'). eshow e)"
proof (cases "kmlDataSource s")
  case None
  then show ?thesis by (simp add: applyVisibilityFromTree_None entitiesOf_def)
next
  case (Some ents)
  obtain ks where
    "applyVisibilityFromTree s = Some ((withMap s)\<lparr>kmlDataSource := Some (projected s ks ents)\<rparr>)"
    using applyVisibilityFromTree_returns [OF sessionOk_parentsBelow [OF assms(1)] Some] by blast
  moreover have "map eid (projected s ks ents) = map eid ents"
    using assms(2) by (auto simp: projected_def)
  moreover have "\<forall>e\<in>set (projected s ks ents). eshow e"
    using assms(2) by (auto simp: projected_def)
  ultimately show ?thesis using Some by (simp add: entitiesOf_def)
qed

theorem fail_open_visibility_witness:
  "sessionOk exMapped
   \<and> placemarkToEntity (withMap exMapped) \<noteq> [] \<and> \<not> userHasInteracted exMapped
   \<and> \<not> isChecked (nodesById exMapped) 1
   \<and> map eshow (entitiesOf exMapped) = [False]
   \<and> (\<exists>s'. applyVisibilityFromTree exMapped = Some s'
           \<and> map eid (entitiesOf s') = map eid (entitiesOf exMapped)
           \<and> (\<forall>e\<in>set (entitiesOf s'). eshow e))"
proof -
  have ok: "sessionOk exMapped"
    using exMasked_wellFormed by (simp add: sessionOk_def exMapped_def initialState_def)
  have pre: "placemarkToEntity (withMap exMapped) \<noteq> [] \<and> \<not> userHasInteracted exMapped"
    by (simp add: withMap_def exMapped_def initialState_def)
  then have hyp: "placemarkToEntity (withMap exMapped) = [] \<or> \<not> userHasInteracted exMapped"
    by simp
  have more: "\<not> isChecked (nodesById exMapped) 1 \<and> map eshow (entitiesOf exMapped) = [False]"
    by (simp add: exMapped_def initialState_def isChecked_def exMasked_def updateNode_def
        exNodes_def mapGet_def entitiesOf_def)
  show ?thesis
    using ok pre more fail_open_visibility [OF ok hyp] by simp
qed

subsection \<open>Labels\<close>

text \<open>
  C7.  The code at the failing input: after the example file is loaded the map is empty;
  the handler of the "hide labels" box then runs the projection with the flag set, and
  the label and the billboard of the entity keep \<open>show = true\<close>.
\<close>

theorem labels_kept_on_empty_map:
  "\<exists>s'. loadKml exFile initialState = Some (None, exLoaded)
       \<and> placemarkToEntity (withMap exLoaded) = []
       \<and> hideLabelsChanged True exLoaded = Some s'
       \<and> hideLabels s'
       \<and> map labelShow (entitiesOf s') = [Some True]
       \<and> map billboardShow (entitiesOf s') = [Some True]"
  by (simp add: exFile_loaded)
     (simp add: hideLabelsChanged_def applyVisibilityFromTree_def exLoaded_def exNodes_collect
       withMap_def rebuildPlacemarkToEntityMap_def entitiesOf_def exPoint_def Let_def)

text \<open>Where the map is not empty the projection does set both flags.\<close>

lemma labels_set_when_mapped:
  assumes "sessionOk s" and "placemarkToEntity (withMap s) \<noteq> []"
  shows "\<exists>s'. applyVisibilityFromTree s = Some s'
           \<and> (\<forall>e\<in>set (entitiesOf s').
                 (labelShow e = None \<or> labelShow e = Some (\<not> hideLabels s))
               \<and> (billboardShow e = None \<or> billboardShow e = Some (\<not> hideLabels s)))"
proof (cases "kmlDataSource s")
  case None
  then show ?thesis by (simp add: applyVisibilityFromTree_None entitiesOf_def)
next
  case (Some ents)
  obtain ks where
    "applyVisibilityFromTree s = Some ((withMap s)\<lparr>kmlDataSource := Some (projected s ks ents)\<rparr>)"
    using applyVisibilityFromTree_returns [OF sessionOk_parentsBelow [OF assms(1)] Some] by blast
  moreover have "\<forall>e\<in>set (projected s ks ents).
                 (labelShow e = None \<or> labelShow e = Some (\<not> hideLabels s))
               \<and> (billboardShow e = None \<or> billboardShow e = Some (\<not> hideLabels s))"
    using assms(2) by (auto simp: projected_def applyLabels_def split: option.splits)
  ultimately show ?thesis by (simp add: entitiesOf_def)
qed

subsection \<open>Reconciliation\<close>

lemma rebuildEntityIndex_frame:
  "kmlDataSource (rebuildEntityIndex s) = kmlDataSource s"
  "nodesById (rebuildEntityIndex s) = nodesById s"
  "rootNodeId (rebuildEntityIndex s) = rootNodeId s"
  "userHasInteracted (rebuildEntityIndex s) = userHasInteracted s"
  "placemarkIndex (rebuildEntityIndex s) = placemarkIndex s"
  by (simp_all add: rebuildEntityIndex_def split: option.splits)

lemma mapGet_mapSet: "mapGet (mapSet k v m) k' = (if k' = k then Some v else mapGet m k')"
  by (induction m) (auto simp: mapGet_def)

lemma set_mapSet: "set (mapSet k v m) \<subseteq> insert (k, v) (set m)"
  by (induction k v m rule: mapSet.induct) auto

text \<open>
  The exact index and the name pools, entry by entry: under a key the index holds the ids
  of all entities of that GeoKey, and under a name the pools hold the candidates of all
  entities of that trimmed name that have geometry.
\<close>

lemma indexEntity_get:
  "mapGet (indexEntity e idx) k =
     (if k = entityKey e then Some (getOrEmpty idx k @ [eid e]) else mapGet idx k)"
  by (simp add: indexEntity_def entityKey_def mapGet_mapSet Let_def)

lemma fold_indexEntity_exact:
  "mapGet (fold indexEntity es idx) k =
     (if idsAt es k = [] then mapGet idx k else Some (getOrEmpty idx k @ idsAt es k))"
proof (induction es arbitrary: idx)
  case Nil
  show ?case by (simp add: idsAt_def)
next
  case (Cons e es)
  show ?case
    using Cons.IH [of "indexEntity e idx"]
    by (simp add: indexEntity_get idsAt_def getOrEmpty_def)
qed

lemma rebuildEntityIndex_exact:
  assumes "kmlDataSource s = Some ents"
  shows "mapGet (entityIndex (rebuildEntityIndex s)) k =
           (if idsAt ents k = [] then None else Some (idsAt ents k))"
  using assms fold_indexEntity_exact [of ents "[]" k]
  by (simp add: rebuildEntityIndex_def getOrEmpty_def mapGet_def)

lemma poolEntity_get:
  "mapGet (poolEntity e byName) nm =
     (if hasGeometry e \<and> nm = trim (ename e) then Some (getOrEmpty byName nm @ [candidateOf e])
      else mapGet byName nm)"
  by (simp add: poolEntity_def candidateOf_def mapGet_mapSet Let_def)

lemma fold_poolEntity_exact:
  "mapGet (fold poolEntity es byName) nm =
     (if pooledAt es nm = [] then mapGet byName nm
      else Some (getOrEmpty byName nm @ pooledAt es nm))"
proof (induction es arbitrary: byName)
  case Nil
  show ?case by (simp add: pooledAt_def)
next
  case (Cons e es)
  show ?case
    using Cons.IH [of "poolEntity e byName"]
    by (auto simp: poolEntity_get pooledAt_def getOrEmpty_def)
qed

lemma pools_exact:
  "mapGet (fold poolEntity ents []) nm =
     (if pooledAt ents nm = [] then None else Some (pooledAt ents nm))"
  using fold_poolEntity_exact [of ents "[]" nm] by (simp add: getOrEmpty_def mapGet_def)

lemma pools_member:
  assumes "c \<in> set (getOrEmpty (fold poolEntity ents []) nm)"
  shows "\<exists>e\<in>set ents. hasGeometry e \<and> trim (ename e) = nm \<and> c = candidateOf e"
proof -
  have "c \<in> set (pooledAt ents nm)"
    using assms pools_exact [of ents nm] by (simp add: getOrEmpty_def split: if_splits)
  then show ?thesis by (auto simp: pooledAt_def)
qed

lemma nearest_mem:
  "nearest pm cs bd best = Some b \<Longrightarrow> b \<in> set cs \<or> best = Some b"
  by (induction cs arbitrary: bd best) (auto simp: Let_def split: option.splits if_splits)

lemma chooseBest_mem: "chooseBest cs pm = Some b \<Longrightarrow> b \<in> set cs"
  by (cases cs) (auto simp: chooseBest_def split: if_splits option.splits dest: nearest_mem)

text \<open>
  An entry that one turn of the matching loop adds is keyed by the placemark's key, and
  holds either one candidate of the pool of the placemark's name or the sequence that
  the exact index holds under that key.
\<close>

lemma matchPlacemark_entry:
  assumes "(k, ids) \<in> set (snd (matchPlacemark byName idx (pmKey, info) acc))"
  shows "(k, ids) \<in> set (snd acc)
       \<or> (k = pmKey
          \<and> ((\<exists>c\<in>set (getOrEmpty byName (trim (getFeatureName (placemarkEl info)))).
                 ids = [eid (entity c)])
             \<or> (ids \<noteq> [] \<and> mapGet idx k = Some ids)))"
proof -
  obtain used result where acc: "acc = (used, result)" by (cases acc)
  let ?cands = "filter (\<lambda>c. eid (entity c) \<notin> used)
                  (getOrEmpty byName (trim (getFeatureName (placemarkEl info))))"
  let ?best = "chooseBest ?cands (firstCoordFromPlacemark (placemarkEl info))"
  have ins: "(k, ids) = (pmKey, v) \<or> (k, ids) \<in> set result"
    if "(k, ids) \<in> set (mapSet pmKey v result)" for v
    using that set_mapSet [of pmKey v result] by blast
  show ?thesis
  proof (cases ?best)
    case None
    show ?thesis
    proof (cases "mapGet idx pmKey")
      case N: None
      then show ?thesis using assms None by (simp add: matchPlacemark_def acc Let_def)
    next
      case (Some exact)
      show ?thesis
      proof (cases "exact = []")
        case True
        then show ?thesis using assms None Some by (simp add: matchPlacemark_def acc Let_def)
      next
        case False
        then have "(k, ids) \<in> set (mapSet pmKey exact result)"
          using assms None Some by (simp add: matchPlacemark_def acc Let_def)
        then show ?thesis using ins [of exact] Some False by (auto simp: acc)
      qed
    qed
  next
    case (Some b)
    then have mem: "b \<in> set (getOrEmpty byName (trim (getFeatureName (placemarkEl info))))"
      using chooseBest_mem [of ?cands _ b] by simp
    have "(k, ids) \<in> set (mapSet pmKey [eid (entity b)] result)"
      using assms Some by (simp add: matchPlacemark_def acc Let_def)
    then show ?thesis using ins [of "[eid (entity b)]"] mem by (auto simp: acc)
  qed
qed

lemma fold_matchPlacemark_entry:
  assumes "(k, ids) \<in> set (snd (fold (matchPlacemark byName idx) entries acc))"
  shows "(k, ids) \<in> set (snd acc)
       \<or> (\<exists>info. (k, info) \<in> set entries
            \<and> ((\<exists>c\<in>set (getOrEmpty byName (trim (getFeatureName (placemarkEl info)))).
                   ids = [eid (entity c)])
               \<or> (ids \<noteq> [] \<and> mapGet idx k = Some ids)))"
  using assms
proof (induction entries arbitrary: acc)
  case Nil
  then show ?case by simp
next
  case (Cons entry entries)
  obtain pmKey info where entry: "entry = (pmKey, info)" by (cases entry)
  from Cons.prems have "(k, ids) \<in> set (snd (fold (matchPlacemark byName idx) entries
                                               (matchPlacemark byName idx (pmKey, info) acc)))"
    by (simp add: entry)
  then consider
      (old) "(k, ids) \<in> set (snd (matchPlacemark byName idx (pmKey, info) acc))"
    | (new) "\<exists>info. (k, info) \<in> set entries
            \<and> ((\<exists>c\<in>set (getOrEmpty byName (trim (getFeatureName (placemarkEl info)))).
                   ids = [eid (entity c)])
               \<or> (ids \<noteq> [] \<and> mapGet idx k = Some ids))"
    using Cons.IH by blast
  then show ?case
  proof cases
    case old
    then show ?thesis using matchPlacemark_entry [OF old] by (auto simp: entry)
  next
    case new
    then show ?thesis by auto
  qed
qed

lemma reconciled_entry:
  assumes "kmlDataSource s = Some ents"
    and "(k, ids) \<in> set (placemarkToEntity (rebuildPlacemarkToEntityMap (rebuildEntityIndex s)))"
  shows "\<exists>info. (k, info) \<in> set (placemarkIndex s)
           \<and> ((\<exists>e\<in>set ents. hasGeometry e
                  \<and> trim (ename e) = trim (getFeatureName (placemarkEl info))
                  \<and> ids = [eid e])
              \<or> (ids \<noteq> [] \<and> ids = idsAt ents k))"
proof -
  let ?s = "rebuildEntityIndex s"
  let ?run = "fold (matchPlacemark (fold poolEntity ents []) (entityIndex ?s)) (placemarkIndex s)
                ({}, [])"
  have nonempty: "placemarkIndex s \<noteq> []"
    using assms by (auto simp: rebuildPlacemarkToEntityMap_def rebuildEntityIndex_frame)
  have "placemarkToEntity (rebuildPlacemarkToEntityMap ?s) = snd ?run"
    using assms(1) nonempty
    by (cases ?run) (simp add: rebuildPlacemarkToEntityMap_def rebuildEntityIndex_frame Let_def)
  then have run: "(k, ids) \<in> set (snd ?run)" using assms(2) by simp
  have "\<exists>info. (k, info) \<in> set (placemarkIndex s)
          \<and> ((\<exists>c\<in>set (getOrEmpty (fold poolEntity ents [])
                         (trim (getFeatureName (placemarkEl info)))).
                 ids = [eid (entity c)])
             \<or> (ids \<noteq> [] \<and> mapGet (entityIndex ?s) k = Some ids))"
    using fold_matchPlacemark_entry [OF run] by simp
  then obtain info where info: "(k, info) \<in> set (placemarkIndex s)"
    and cases: "(\<exists>c\<in>set (getOrEmpty (fold poolEntity ents [])
                            (trim (getFeatureName (placemarkEl info)))).
                   ids = [eid (entity c)])
               \<or> (ids \<noteq> [] \<and> mapGet (entityIndex ?s) k = Some ids)"
    by blast
  from cases show ?thesis
  proof
    assume "\<exists>c\<in>set (getOrEmpty (fold poolEntity ents [])
                       (trim (getFeatureName (placemarkEl info)))). ids = [eid (entity c)]"
    then obtain c where c: "c \<in> set (getOrEmpty (fold poolEntity ents [])
                                      (trim (getFeatureName (placemarkEl info))))"
      and ids: "ids = [eid (entity c)]" by blast
    obtain e where "e \<in> set ents" "hasGeometry e"
      "trim (ename e) = trim (getFeatureName (placemarkEl info))" "c = candidateOf e"
      using pools_member [OF c] by blast
    then show ?thesis using info ids by (auto simp: candidateOf_def)
  next
    assume fb: "ids \<noteq> [] \<and> mapGet (entityIndex ?s) k = Some ids"
    then have "ids = idsAt ents k"
      using rebuildEntityIndex_exact [OF assms(1), of k] by (simp split: if_splits)
    then show ?thesis using fb info by blast
  qed
qed

text \<open>
  In a collection of distinct ids, an entity without geometry is in the sequence of a key
  only if that key is its own GeoKey and the sequence is the one of the exact index.
\<close>

lemma bare_entry:
  assumes "kmlDataSource s = Some ents" "distinct (map eid ents)"
    and "e \<in> set ents" "\<not> hasGeometry e"
    and "(k, ids) \<in> set (placemarkToEntity (rebuildPlacemarkToEntityMap (rebuildEntityIndex s)))"
    and "eid e \<in> set ids"
  shows "entityKey e = k \<and> ids = idsAt ents k"
proof -
  have inj: "e' = e" if "e' \<in> set ents" "eid e' = eid e" for e'
    using that assms(2,3) by (meson distinct_map inj_onD)
  have "(\<exists>e'\<in>set ents. hasGeometry e' \<and> ids = [eid e']) \<or> (ids \<noteq> [] \<and> ids = idsAt ents k)"
    using reconciled_entry [OF assms(1,5)] by blast
  then show ?thesis
  proof
    assume "\<exists>e'\<in>set ents. hasGeometry e' \<and> ids = [eid e']"
    then obtain e' where "e' \<in> set ents" "hasGeometry e'" "ids = [eid e']" by blast
    then have "e' = e" using inj assms(6) by simp
    then show ?thesis using \<open>hasGeometry e'\<close> assms(4) by simp
  next
    assume fb: "ids \<noteq> [] \<and> ids = idsAt ents k"
    then have "eid e \<in> eid ` {x \<in> set ents. entityKey x = k}"
      using assms(6) by (simp add: idsAt_def)
    then obtain e' where "e' \<in> set ents" "entityKey e' = k" "eid e' = eid e"
      by force
    then have "e' = e" using inj by simp
    then show ?thesis using fb \<open>entityKey e' = k\<close> by simp
  qed
qed

lemmas reconcile_defs =
  rebuildEntityIndex_def rebuildPlacemarkToEntityMap_def indexEntity_def poolEntity_def
  matchPlacemark_def chooseBest_def getOrEmpty_def mapGet_def hasGeometry_def
  firstCoordFromEntity_def getFeatureName_def firstCoordFromPlacemark_def

text \<open>
  C1.  The code at the failing input: the placemark index of the example document (two
  placemarks named Site, the first at (1, 2), the second without a coordinate) and a
  collection of one entity named Site with a polygon.  The first placemark takes the
  entity from the name pool; the second finds the pool used up and takes the same entity
  from the exact index: the entity is in the sequences of two keys.
\<close>

theorem instance_assigned_twice:
  "buildTreeFromKml exDoc = (exNodes, 1, exIndex)
   \<and> entityIndex (rebuildEntityIndex exPolygonSession) = [(''Site'', [7])]
   \<and> placemarkToEntity (rebuildPlacemarkToEntityMap (rebuildEntityIndex exPolygonSession))
       = [(''Site|1,2'', [7]), (''Site'', [7])]"
  by (simp add: exDoc_tree)
     (simp add: exPolygonSession_def initialState_def exIndex_def exPolygon_def exSiteAt_def
       exSiteBare_def reconcile_defs key_defs Let_def)

text \<open>
  C8, as the claim states it, fails: the entity without geometry is filed in the exact
  index, and the placemark whose key is its key is assigned it.
\<close>

theorem bare_instance_indexed_and_assigned:
  "\<not> hasGeometry exBare
   \<and> entityIndex (rebuildEntityIndex exBareSession) = [(''Site'', [8])]
   \<and> placemarkToEntity (rebuildPlacemarkToEntityMap (rebuildEntityIndex exBareSession))
       = [(''Site'', [8])]"
  by (simp add: exBareSession_def initialState_def exIndex_def exBare_def exSiteAt_def
      exSiteBare_def reconcile_defs key_defs Let_def)

text \<open>
  The index and the map for a collection of two entities, one with a point and one
  without geometry: the first placemark takes the first entity from the name pool, the
  second takes the second entity from the exact index.
\<close>

lemma exMixed_eval:
  "entityIndex (rebuildEntityIndex exMixedSession) = [(''Site|1,2'', [7]), (''Site'', [8])]
   \<and> placemarkToEntity (rebuildPlacemarkToEntityMap (rebuildEntityIndex exMixedSession))
       = [(''Site|1,2'', [7]), (''Site'', [8])]"
  by (simp add: exMixedSession_def initialState_def exIndex_def exPoint_def exBare_def exSiteAt_def
      exSiteBare_def reconcile_defs key_defs Let_def)

text \<open>
  C8, amended.  \<open>rebuildEntityIndex\<close> files every entity of the collection, with or
  without geometry, under its GeoKey and under no other key: under a key the index holds
  exactly the ids of the entities of that GeoKey.  Only the name pools leave out the
  entities without geometry: under a name they hold exactly the entities of that trimmed
  name that have geometry.  Every entry of the map that \<open>rebuildPlacemarkToEntityMap\<close>
  builds on that index is keyed by a placemark of the placemark index, and is either one
  entity with geometry that has the placemark's trimmed name, or the sequence that the
  exact index holds under the placemark's key.  Hence, the ids of a collection being
  distinct, an entity without geometry is in the sequence of a placemark only when the
  placemark's key is the entity's own GeoKey, and the sequence is then the one of the
  exact index.
\<close>

theorem index_covers_every_instance:
  assumes "kmlDataSource s = Some ents"
  shows "(\<forall>k. mapGet (entityIndex (rebuildEntityIndex s)) k =
               (if idsAt ents k = [] then None else Some (idsAt ents k)))
       \<and> (\<forall>nm. mapGet (fold poolEntity ents []) nm =
               (if pooledAt ents nm = [] then None else Some (pooledAt ents nm)))
       \<and> (\<forall>k ids.
            (k, ids) \<in> set (placemarkToEntity
                             (rebuildPlacemarkToEntityMap (rebuildEntityIndex s))) \<longrightarrow>
            (\<exists>info. (k, info) \<in> set (placemarkIndex s)
               \<and> ((\<exists>e\<in>set ents. hasGeometry e
                      \<and> trim (ename e) = trim (getFeatureName (placemarkEl info))
                      \<and> ids = [eid e])
                  \<or> (ids \<noteq> [] \<and> ids = idsAt ents k))))
       \<and> (distinct (map eid ents) \<longrightarrow>
            (\<forall>e\<in>set ents. \<not> hasGeometry e \<longrightarrow>
               (\<forall>k ids.
                  (k, ids) \<in> set (placemarkToEntity
                                   (rebuildPlacemarkToEntityMap (rebuildEntityIndex s))) \<longrightarrow>
                  eid e \<in> set ids \<longrightarrow> entityKey e = k \<and> ids = idsAt ents k)))"
proof (intro conjI allI impI ballI)
  fix k
  show "mapGet (entityIndex (rebuildEntityIndex s)) k =
          (if idsAt ents k = [] then None else Some (idsAt ents k))"
    using assms by (rule rebuildEntityIndex_exact)
next
  fix nm
  show "mapGet (fold poolEntity ents []) nm =
          (if pooledAt ents nm = [] then None else Some (pooledAt ents nm))"
    by (rule pools_exact)
next
  fix k ids
  assume "(k, ids) \<in> set (placemarkToEntity (rebuildPlacemarkToEntityMap (rebuildEntityIndex s)))"
  then show "\<exists>info. (k, info) \<in> set (placemarkIndex s)
               \<and> ((\<exists>e\<in>set ents. hasGeometry e
                      \<and> trim (ename e) = trim (getFeatureName (placemarkEl info))
                      \<and> ids = [eid e])
                  \<or> (ids \<noteq> [] \<and> ids = idsAt ents k))"
    by (rule reconciled_entry [OF assms])
next
  fix e k ids
  assume "distinct (map eid ents)" "e \<in> set ents" "\<not> hasGeometry e"
    "(k, ids) \<in> set (placemarkToEntity (rebuildPlacemarkToEntityMap (rebuildEntityIndex s)))"
    "eid e \<in> set ids"
  then show "entityKey e = k" and "ids = idsAt ents k"
    using bare_entry [OF assms] by simp_all
qed

theorem index_covers_every_instance_witness:
  "kmlDataSource exMixedSession = Some [exPoint, exBare]
   \<and> distinct (map eid [exPoint, exBare])
   \<and> hasGeometry exPoint \<and> \<not> hasGeometry exBare
   \<and> placemarkIndex exMixedSession = exIndex
   \<and> entityIndex (rebuildEntityIndex exMixedSession) = [(''Site|1,2'', [7]), (''Site'', [8])]
   \<and> mapGet (fold poolEntity [exPoint, exBare] []) ''Site'' = Some [candidateOf exPoint]
   \<and> placemarkToEntity (rebuildPlacemarkToEntityMap (rebuildEntityIndex exMixedSession))
       = [(''Site|1,2'', [eid exPoint]), (''Site'', [eid exBare])]
   \<and> entityKey exBare = ''Site''
   \<and> idsAt [exPoint, exBare] ''Site'' = [eid exBare]"
proof -
  have h: "kmlDataSource exMixedSession = Some [exPoint, exBare]"
    by (simp add: exMixedSession_def initialState_def)
  have d: "distinct (map eid [exPoint, exBare])"
    by (simp add: exPoint_def exBare_def)
  have g: "hasGeometry exPoint \<and> \<not> hasGeometry exBare"
    by (simp add: hasGeometry_def exPoint_def exBare_def)
  have p: "placemarkIndex exMixedSession = exIndex"
    by (simp add: exMixedSession_def initialState_def)
  have ids: "eid exPoint = 7 \<and> eid exBare = 8" by (simp add: exPoint_def exBare_def)
  note t = index_covers_every_instance [OF h]
  have pool: "mapGet (fold poolEntity [exPoint, exBare] []) ''Site'' = Some [candidateOf exPoint]"
    using t g by (simp add: pooledAt_def exPoint_def exBare_def trim_def isSpace_def)
  have entry: "(''Site'', [8]) \<in> set (placemarkToEntity
                 (rebuildPlacemarkToEntityMap (rebuildEntityIndex exMixedSession)))"
    using exMixed_eval by simp
  have "entityKey exBare = ''Site'' \<and> [8] = idsAt [exPoint, exBare] ''Site''"
    using t d g entry ids by auto
  then show ?thesis using h d g p ids pool exMixed_eval by simp
qed

subsection \<open>Failed loads\<close>

lemma treeInstalled_frame:
  "kmlDataSource (treeInstalled file rootEl s) = kmlDataSource s"
  "entityIndex (treeInstalled file rootEl s) = entityIndex s"
  "placemarkIndex (treeInstalled file rootEl s) = placemarkIndex s"
  "placemarkToEntity (treeInstalled file rootEl s) = placemarkToEntity s"
  "userHasInteracted (treeInstalled file rootEl s) = userHasInteracted s"
  "hideLabels (treeInstalled file rootEl s) = hideLabels s"
  "nodesById (treeInstalled file rootEl s) = expandFolders (fst (buildTreeFromKml rootEl))"
  "rootNodeId (treeInstalled file rootEl s) = Some (fst (snd (buildTreeFromKml rootEl)))"
  by (simp_all add: treeInstalled_def)

lemma loadKml_error_cases:
  assumes "loadKml file s = Some (Some err, s')"
  shows "elementsByTagName ''parsererror'' (parsed file) \<noteq> []
       \<or> findRootFeature (parsed file) = None \<or> rendered file = None"
proof (rule ccontr)
  assume "\<not> ?thesis"
  then obtain rootEl ents where
    "elementsByTagName ''parsererror'' (parsed file) = []"
    "findRootFeature (parsed file) = Some rootEl" "rendered file = Some ents"
    by auto
  then show False using assms loadKml_rendered [of "file" rootEl ents s] by auto
qed

lemma exFolder_tree:
  "buildTreeFromKml exFolder =
     ([(1, \<lparr>nid = 1, parentId = None, name = ''Other'', tag = ''Folder'', featureEl = exFolder,
            children = [], checked = True, indeterminate = False, expanded = True,
            placemarkKeys = []\<rparr>)], 1, [])"
  by (simp add: buildTreeFromKml_def exFolder_def getFeatureName_def getChildFeatures_def
      updateNode_def trim_def isSpace_def Let_def)

lemma exRejectedFile_facts:
  "elementsByTagName ''parsererror'' (parsed exRejectedFile) = []"
  "findRootFeature (parsed exRejectedFile) = Some exFolder"
  "rendered exRejectedFile = None"
  by (simp_all add: exRejectedFile_def exFolder_def findRootFeature_def)

text \<open>
  C3, as the claim states it, fails: the renderer rejects the second file, the load
  aborts with that error, and the tree of the session is by then the new document's.
\<close>

theorem rejected_load_replaces_tree:
  "loadKml exFile initialState = Some (None, exLoaded)
   \<and> loadKml exRejectedFile exLoaded
       = Some (Some RendererRejected, treeInstalled exRejectedFile exFolder exLoaded)
   \<and> map fst (nodesById exLoaded) = [1, 2, 3]
   \<and> map fst (nodesById (treeInstalled exRejectedFile exFolder exLoaded)) = [1]
   \<and> fileName (treeInstalled exRejectedFile exFolder exLoaded) = Some ''b.kml''"
proof -
  have "loadKml exRejectedFile exLoaded
       = Some (Some RendererRejected, treeInstalled exRejectedFile exFolder exLoaded)"
    by (rule loadKml_rejected) (rule exRejectedFile_facts)+
  moreover have "map fst (nodesById (treeInstalled exRejectedFile exFolder exLoaded)) = [1]"
    by (simp add: treeInstalled_def exFolder_tree expandFolders_def)
  moreover have "map fst (nodesById exLoaded) = [1, 2, 3]"
    by (simp add: exLoaded_def exNodes_def)
  moreover have "fileName (treeInstalled exRejectedFile exFolder exLoaded) = Some ''b.kml''"
    by (simp add: treeInstalled_def exRejectedFile_def)
  ultimately show ?thesis by (simp add: exFile_loaded)
qed

text \<open>
  C3, amended.  Every load that fails returns with one of the three errors.  A load
  that fails with a parse error or for want of a Document or Folder root leaves the
  whole session as it was.  A load that the renderer rejects leaves the session with the
  file name, the document, the filter text, \<open>nodesById\<close> and \<open>rootNodeId\<close> of the new
  document; the collection of entities, the two indexes, the map and the two flags are
  as they were.
\<close>

theorem failed_load_state:
  "(elementsByTagName ''parsererror'' (parsed file) \<noteq> [] \<longrightarrow>
      loadKml file s = Some (Some KmlParseError, s))
   \<and> (elementsByTagName ''parsererror'' (parsed file) = [] \<and> findRootFeature (parsed file) = None
        \<longrightarrow> loadKml file s = Some (Some NoRootFeature, s))
   \<and> (elementsByTagName ''parsererror'' (parsed file) = []
        \<and> findRootFeature (parsed file) = Some rootEl \<and> rendered file = None \<longrightarrow>
          loadKml file s = Some (Some RendererRejected, treeInstalled file rootEl s)
          \<and> nodesById (treeInstalled file rootEl s) = expandFolders (fst (buildTreeFromKml rootEl))
          \<and> rootNodeId (treeInstalled file rootEl s) = Some (fst (snd (buildTreeFromKml rootEl)))
          \<and> kmlDataSource (treeInstalled file rootEl s) = kmlDataSource s
          \<and> entityIndex (treeInstalled file rootEl s) = entityIndex s
          \<and> placemarkIndex (treeInstalled file rootEl s) = placemarkIndex s
          \<and> placemarkToEntity (treeInstalled file rootEl s) = placemarkToEntity s
          \<and> userHasInteracted (treeInstalled file rootEl s) = userHasInteracted s
          \<and> hideLabels (treeInstalled file rootEl s) = hideLabels s)
   \<and> (loadKml file s = Some (Some err, s') \<longrightarrow>
        elementsByTagName ''parsererror'' (parsed file) \<noteq> []
        \<or> findRootFeature (parsed file) = None \<or> rendered file = None)"
  using loadKml_parse_error [of "file" s] loadKml_no_root [of "file" s]
    loadKml_rejected [of "file" rootEl s] loadKml_error_cases [of "file" s err s']
  by (simp add: treeInstalled_frame)

theorem failed_load_state_witness:
  "elementsByTagName ''parsererror'' (parsed exRejectedFile) = []
   \<and> findRootFeature (parsed exRejectedFile) = Some exFolder
   \<and> rendered exRejectedFile = None
   \<and> loadKml exRejectedFile exLoaded
       = Some (Some RendererRejected, treeInstalled exRejectedFile exFolder exLoaded)
   \<and> kmlDataSource (treeInstalled exRejectedFile exFolder exLoaded) = kmlDataSource exLoaded
   \<and> placemarkToEntity (treeInstalled exRejectedFile exFolder exLoaded)
       = placemarkToEntity exLoaded"
  using failed_load_state [of exRejectedFile exLoaded exFolder] exRejectedFile_facts
  by simp

subsection \<open>The builder makes well-formed trees\<close>

lemma mapGet_append:
  "mapGet (a @ b) k = (case mapGet a k of Some v \<Rightarrow> Some v | None \<Rightarrow> mapGet b k)"
  by (simp add: mapGet_def map_add_def split: option.splits)

lemma mapGet_Some_key: "mapGet m k = Some v \<Longrightarrow> k \<in> set (map fst m)"
  by (auto simp: mapGet_def dest: map_of_SomeD intro: rev_image_eqI)

lemma mapGet_None_key: "k \<notin> set (map fst m) \<Longrightarrow> mapGet m k = None"
  by (simp add: mapGet_def map_of_eq_None_iff)

lemma mapSet_fresh: "k \<notin> set (map fst m) \<Longrightarrow> mapSet k v m = m @ [(k, v)]"
  by (induction m) auto

lemma updateNode_absent: "k \<notin> set (map fst m) \<Longrightarrow> updateNode k f m = m"
  by (induction m) (auto simp: updateNode_def)

lemma updateNode_at:
  "k \<notin> set (map fst a) \<Longrightarrow> k \<notin> set (map fst seg) \<Longrightarrow>
     updateNode k f (a @ (k, n) # seg) = a @ (k, f n) # seg"
  using updateNode_absent [of k a f] updateNode_absent [of k seg f]
  by (simp add: updateNode_def)

lemma upt_split: "lo \<le> mid \<Longrightarrow> mid \<le> hi \<Longrightarrow> [lo..<mid] @ [mid..<hi] = [lo..<hi]"
  using upt_add_eq_append [of lo mid "hi - mid"] by simp

lemma builtSeg_empty: "builtSeg par [] lo lo []"
  by (simp add: builtSeg_def)

lemma builtSeg_keys: "builtSeg par tops lo hi seg \<Longrightarrow> set (map fst seg) = {lo..<hi}"
  by (simp add: builtSeg_def)

lemma entryOk_mono:
  assumes ok: "entryOk par tops seg i n"
    and get: "\<And>k v. mapGet seg k = Some v \<Longrightarrow> mapGet seg' k = Some v"
    and tops: "(i \<in> set tops') = (i \<in> set tops)" "i \<in> set tops \<Longrightarrow> par' = par"
  shows "entryOk par' tops' seg' i n"
proof -
  have kids: "\<forall>c\<in>set (children n). i < c \<and> (\<exists>cn. mapGet seg' c = Some cn \<and> parentId cn = Some i)"
    using ok get unfolding entryOk_def by blast
  have up: "if i \<in> set tops' then parentId n = par'
         else \<exists>p pn. parentId n = Some p \<and> p < i \<and> mapGet seg' p = Some pn
                \<and> i \<in> set (children pn)"
  proof (cases "i \<in> set tops")
    case True
    then show ?thesis using ok tops by (simp add: entryOk_def)
  next
    case False
    then obtain p pn where "parentId n = Some p" "p < i" "mapGet seg p = Some pn"
      "i \<in> set (children pn)"
      using ok by (auto simp: entryOk_def)
    then show ?thesis using False tops get by auto
  qed
  show ?thesis
    using ok kids up unfolding entryOk_def by simp
qed

lemma builtSeg_append:
  assumes s1: "builtSeg par k1 lo mid s1" and s2: "builtSeg par k2 mid hi s2"
    and le: "lo \<le> mid" "mid \<le> hi"
  shows "builtSeg par (k1 @ k2) lo hi (s1 @ s2)"
proof -
  have keys1: "set (map fst s1) = {lo..<mid}" and keys2: "set (map fst s2) = {mid..<hi}"
    using s1 s2 by (simp_all add: builtSeg_def)
  have tops1: "set k1 \<subseteq> {lo..<mid}" and tops2: "set k2 \<subseteq> {mid..<hi}"
    using s1 s2 by (simp_all add: builtSeg_def)
  have get1: "mapGet (s1 @ s2) k = Some v" if "mapGet s1 k = Some v" for k v
    using that by (simp add: mapGet_append)
  have get2: "mapGet (s1 @ s2) k = Some v" if "mapGet s2 k = Some v" for k v
  proof -
    have "k \<in> {mid..<hi}" using mapGet_Some_key [OF that] keys2 by simp
    then have "k \<notin> set (map fst s1)" using keys1 by simp
    then show ?thesis using that by (simp add: mapGet_append mapGet_None_key)
  qed
  have "map fst (s1 @ s2) = [lo..<hi]"
    using s1 s2 le by (simp add: builtSeg_def upt_split)
  moreover have "set (k1 @ k2) \<subseteq> {lo..<hi}"
    using tops1 tops2 le by auto
  moreover have "entryOk par (k1 @ k2) (s1 @ s2) i n" if mem: "(i, n) \<in> set (s1 @ s2)" for i n
  proof (cases "(i, n) \<in> set s1")
    case True
    then have ok: "entryOk par k1 s1 i n" using s1 by (simp add: builtSeg_def)
    have "i \<in> {lo..<mid}" using True keys1 by force
    then have "i \<notin> set k2" using tops2 by auto
    then show ?thesis using ok get1 by (intro entryOk_mono [OF ok]) auto
  next
    case False
    then have in2: "(i, n) \<in> set s2" using mem by simp
    then have ok: "entryOk par k2 s2 i n" using s2 by (simp add: builtSeg_def)
    have "i \<in> {mid..<hi}" using in2 keys2 by force
    then have "i \<notin> set k1" using tops1 by auto
    then show ?thesis using ok get2 by (intro entryOk_mono [OF ok]) auto
  qed
  ultimately show ?thesis by (simp add: builtSeg_def)
qed

lemma builtSeg_wrap:
  assumes seg: "builtSeg (Some lo) kids (Suc lo) hi seg" and le: "Suc lo \<le> hi"
    and n: "nid n = lo" "children n = kids" "parentId n = par" "checked n" "\<not> indeterminate n"
      "tag n = ''Placemark'' \<longrightarrow> kids = []"
  shows "builtSeg par [lo] lo hi ((lo, n) # seg)"
proof -
  have keys: "set (map fst seg) = {Suc lo..<hi}" and tops: "set kids \<subseteq> {Suc lo..<hi}"
    using seg by (simp_all add: builtSeg_def)
  have lo_out: "lo \<notin> set (map fst seg)" using keys by simp
  have get_seg: "mapGet ((lo, n) # seg) k = Some v" if "mapGet seg k = Some v" for k v
  proof -
    have "k \<noteq> lo" using mapGet_Some_key [OF that] lo_out by auto
    then show ?thesis using that by (simp add: mapGet_def)
  qed
  have get_lo: "mapGet ((lo, n) # seg) lo = Some n" by (simp add: mapGet_def)
  have kid_entry: "\<exists>cn. mapGet seg c = Some cn \<and> parentId cn = Some lo" if "c \<in> set kids" for c
  proof -
    have "c \<in> set (map fst seg)" using that tops keys by auto
    then obtain cn where cn: "(c, cn) \<in> set seg" by auto
    then have "entryOk (Some lo) kids seg c cn" using seg by (simp add: builtSeg_def)
    then have "parentId cn = Some lo" using that by (simp add: entryOk_def)
    moreover have "distinct (map fst seg)" using seg by (simp add: builtSeg_def)
    then have "mapGet seg c = Some cn" using cn by (simp add: mapGet_def)
    ultimately show ?thesis by blast
  qed
  have "map fst ((lo, n) # seg) = [lo..<hi]"
    using seg le by (simp add: builtSeg_def upt_conv_Cons)
  moreover have "entryOk par [lo] ((lo, n) # seg) i m" if mem: "(i, m) \<in> set ((lo, n) # seg)" for i m
  proof (cases "(i, m) = (lo, n)")
    case True
    have "\<forall>c\<in>set kids. lo < c \<and> (\<exists>cn. mapGet ((lo, n) # seg) c = Some cn \<and> parentId cn = Some lo)"
      using kid_entry get_seg tops by fastforce
    then show ?thesis using True n by (simp add: entryOk_def)
  next
    case False
    then have in_seg: "(i, m) \<in> set seg" using mem by auto
    then have ok: "entryOk (Some lo) kids seg i m" using seg by (simp add: builtSeg_def)
    have i: "i \<in> {Suc lo..<hi}" using in_seg keys by force
    show ?thesis
    proof (cases "i \<in> set kids")
      case True
      then have "parentId m = Some lo" using ok by (simp add: entryOk_def)
      then have "\<exists>p pn. parentId m = Some p \<and> p < i \<and> mapGet ((lo, n) # seg) p = Some pn
                  \<and> i \<in> set (children pn)"
        using i get_lo n(2) True by auto
      moreover have "\<forall>c\<in>set (children m). i < c
                  \<and> (\<exists>cn. mapGet ((lo, n) # seg) c = Some cn \<and> parentId cn = Some i)"
        using ok get_seg unfolding entryOk_def by blast
      ultimately show ?thesis using ok i unfolding entryOk_def by simp
    next
      case False
      then have "i \<notin> set [lo] \<longleftrightarrow> i \<notin> set kids" using i by simp
      then show ?thesis using get_seg i False
        by (intro entryOk_mono [OF ok]) auto
    qed
  qed
  ultimately show ?thesis using le by (simp add: builtSeg_def)
qed

lemma build_segments:
  "(\<forall>k\<in>set (map fst (bNodes st)). k < nextN st) \<Longrightarrow>
   buildNode el par pathNames st = (node, st') \<Longrightarrow>
     nextN st < nextN st'
     \<and> (\<exists>seg. bNodes st' = bNodes st @ seg
            \<and> builtSeg par [nextN st] (nextN st) (nextN st') seg
            \<and> mapGet seg (nextN st) = Some node)
     \<and> nid node = nextN st \<and> tag node = tagName el"
  and
  "(\<forall>k\<in>set (map fst (bNodes st)). k < nextN st) \<Longrightarrow> ident < nextN st \<Longrightarrow>
   buildChildren els ident pathNames node0 st = (node', st') \<Longrightarrow>
     nextN st \<le> nextN st'
     \<and> (\<exists>seg kids. bNodes st' = bNodes st @ seg
            \<and> builtSeg (Some ident) kids (nextN st) (nextN st') seg
            \<and> children node' = children node0 @ kids)
     \<and> nid node' = nid node0 \<and> parentId node' = parentId node0 \<and> tag node' = tag node0
     \<and> checked node' = checked node0 \<and> indeterminate node' = indeterminate node0"
proof (induction el par pathNames st and els ident pathNames node0 st
       arbitrary: node st' and node' st' rule: buildNode_buildChildren.induct)
  case (1 el par pathNames st)
  let ?n0 = "nextN st"
  let ?node0 = "\<lparr>nid = ?n0, parentId = par, name = getFeatureName el, tag = tagName el,
                 featureEl = el, children = [], checked = True, indeterminate = False,
                 expanded = (tagName el \<noteq> ''Placemark''), placemarkKeys = []\<rparr>"
  let ?st1 = "st\<lparr>nextN := ?n0 + 1, bNodes := mapSet ?n0 ?node0 (bNodes st)\<rparr>"
  have fresh: "?n0 \<notin> set (map fst (bNodes st))" using "1.prems"(1) by auto
  note nodes1 = mapSet_fresh [OF fresh]
  show ?case
  proof (cases "tagName el = ''Placemark''")
    case True
    let ?node1 = "?node0\<lparr>placemarkKeys :=
        [placemarkKey (getFeatureName el) (map_option lon (firstCoordFromPlacemark el))
           (map_option lat (firstCoordFromPlacemark el))]\<rparr>"
    have res: "node = ?node1" "nextN st' = ?n0 + 1"
      "bNodes st' = updateNode ?n0 (\<lambda>_. ?node1) (bNodes st @ [(?n0, ?node0)])"
      using "1.prems"(2) True by (auto simp: Let_def nodes1)
    have "bNodes st' = bNodes st @ [(?n0, ?node1)]"
      using updateNode_at [OF fresh, of "[]" "\<lambda>_. ?node1" ?node0] by (simp add: res(3))
    moreover have "builtSeg par [?n0] ?n0 (?n0 + 1) [(?n0, ?node1)]"
      using builtSeg_wrap [OF builtSeg_empty, of ?n0 ?node1 par] by simp
    moreover have "mapGet [(?n0, ?node1)] ?n0 = Some ?node1" by (simp add: mapGet_def)
    ultimately show ?thesis using res by simp
  next
    case False
    obtain node1 st2 where kids: "buildChildren (getChildFeatures el) ?n0 pathNames ?node0 ?st1 = (node1, st2)"
      by (cases "buildChildren (getChildFeatures el) ?n0 pathNames ?node0 ?st1")
    let ?node2 = "if 1 < length (placemarkKeys node1)
                  then node1\<lparr>placemarkKeys := dedupe (placemarkKeys node1)\<rparr> else node1"
    have res: "node = ?node2" "nextN st' = nextN st2"
      "bNodes st' = updateNode ?n0 (\<lambda>_. ?node2) (bNodes st2)"
      using "1.prems"(2) False kids by (auto simp: Let_def)
    have pre1: "\<forall>k\<in>set (map fst (bNodes ?st1)). k < nextN ?st1"
      using "1.prems"(1) by (auto simp: nodes1)
    have IH: "nextN ?st1 \<le> nextN st2
       \<and> (\<exists>seg kids. bNodes st2 = bNodes ?st1 @ seg
              \<and> builtSeg (Some ?n0) kids (nextN ?st1) (nextN st2) seg
              \<and> children node1 = children ?node0 @ kids)
       \<and> nid node1 = nid ?node0 \<and> parentId node1 = parentId ?node0 \<and> tag node1 = tag ?node0
       \<and> checked node1 = checked ?node0 \<and> indeterminate node1 = indeterminate ?node0"
      by (rule "1.IH" [OF refl refl refl refl refl False pre1 _ kids]) simp
    then obtain seg ks where seg: "bNodes st2 = bNodes st @ (?n0, ?node0) # seg"
      "builtSeg (Some ?n0) ks (Suc ?n0) (nextN st2) seg" "children node1 = ks"
      by (auto simp: nodes1)
    have le: "Suc ?n0 \<le> nextN st2" using IH by simp
    have out: "?n0 \<notin> set (map fst seg)" using builtSeg_keys [OF seg(2)] by simp
    have "bNodes st' = bNodes st @ (?n0, ?node2) # seg"
      using updateNode_at [OF fresh out, of "\<lambda>_. ?node2" ?node0] by (simp add: res(3) seg(1))
    moreover have "builtSeg par [?n0] ?n0 (nextN st2) ((?n0, ?node2) # seg)"
      using IH seg(3) False by (intro builtSeg_wrap [OF seg(2) le]) auto
    moreover have "mapGet ((?n0, ?node2) # seg) ?n0 = Some ?node2" by (simp add: mapGet_def)
    ultimately show ?thesis using res le IH by auto
  qed
next
  case (2 ident pathNames node0 st)
  then show ?case using builtSeg_empty [of "Some ident" "nextN st"] by auto
next
  case (3 childEl rest ident pathNames node0 st)
  let ?path = "if tagName childEl = ''Placemark'' then pathNames
               else pathNames @ [getFeatureName childEl]"
  obtain childNode st1 where child: "buildNode childEl (Some ident) ?path st = (childNode, st1)"
    by (cases "buildNode childEl (Some ident) ?path st")
  let ?node1 = "node0\<lparr>children := children node0 @ [nid childNode],
                        placemarkKeys := placemarkKeys node0 @ placemarkKeys childNode\<rparr>"
  have rest: "buildChildren rest ident pathNames ?node1 st1 = (node', st')"
    using "3.prems"(3) child by (simp add: Let_def)
  have P: "nextN st < nextN st1
     \<and> (\<exists>seg. bNodes st1 = bNodes st @ seg
            \<and> builtSeg (Some ident) [nextN st] (nextN st) (nextN st1) seg
            \<and> mapGet seg (nextN st) = Some childNode)
     \<and> nid childNode = nextN st \<and> tag childNode = tagName childEl"
    by (rule "3.IH"(1) [OF refl refl refl "3.prems"(1) child])
  then obtain seg1 where seg1: "bNodes st1 = bNodes st @ seg1"
    "builtSeg (Some ident) [nextN st] (nextN st) (nextN st1) seg1"
    by auto
  have pre1: "\<forall>k\<in>set (map fst (bNodes st1)). k < nextN st1"
    using "3.prems"(1) P builtSeg_keys [OF seg1(2)] by (auto simp: seg1(1))
  have lt1: "ident < nextN st1" using "3.prems"(2) P by simp
  have Q: "nextN st1 \<le> nextN st'
     \<and> (\<exists>seg kids. bNodes st' = bNodes st1 @ seg
            \<and> builtSeg (Some ident) kids (nextN st1) (nextN st') seg
            \<and> children node' = children ?node1 @ kids)
     \<and> nid node' = nid ?node1 \<and> parentId node' = parentId ?node1 \<and> tag node' = tag ?node1
     \<and> checked node' = checked ?node1 \<and> indeterminate node' = indeterminate ?node1"
    by (rule "3.IH"(2) [OF refl refl refl child [symmetric] refl refl pre1 lt1 rest])
  then obtain seg2 ks where seg2: "bNodes st' = bNodes st1 @ seg2"
    "builtSeg (Some ident) ks (nextN st1) (nextN st') seg2"
    "children node' = children ?node1 @ ks"
    by auto
  have "builtSeg (Some ident) ([nextN st] @ ks) (nextN st) (nextN st') (seg1 @ seg2)"
    using P Q by (intro builtSeg_append [OF seg1(2) seg2(2)]) auto
  moreover have "bNodes st' = bNodes st @ (seg1 @ seg2)" by (simp add: seg1(1) seg2(1))
  moreover have "children node' = children node0 @ ([nextN st] @ ks)"
    using seg2(3) P by simp
  ultimately show ?case using P Q by (auto simp del: append_assoc append.simps)
qed

lemma builtSeg_wellFormed:
  assumes "builtSeg None [r] r hi seg"
  shows "wellFormed seg r \<and> allFresh seg"
proof -
  have keys: "map fst seg = [r..<hi]" and top: "r \<in> {r..<hi}"
    and ok: "\<And>i n. (i, n) \<in> set seg \<Longrightarrow> entryOk None [r] seg i n"
    using assms by (simp_all add: builtSeg_def)
  have dist: "distinct (map fst seg)" by (simp add: keys)
  have "r \<in> set (map fst seg)" using top keys by simp
  then have root: "mapGet seg r \<noteq> None"
    by (simp add: mapGet_def map_of_eq_None_iff)
  have "nodeOk seg r (i, n)" if "(i, n) \<in> set seg" for i n
    using ok [OF that] unfolding entryOk_def nodeOk_def
    by (auto simp: list_all_iff split: option.splits if_splits)
  then have "list_all (nodeOk seg r) seg" by (auto simp: list_all_iff)
  moreover have "allFresh seg"
    using ok by (auto simp: allFresh_def list_all_iff entryOk_def)
  ultimately show ?thesis using dist root by (simp add: wellFormed_def)
qed

lemma buildTreeFromKml_wellFormed:
  assumes "buildTreeFromKml rootEl = (nodes, r, pidx)"
  shows "wellFormed nodes r \<and> allFresh nodes
       \<and> (\<exists>n. mapGet nodes r = Some n \<and> tag n = tagName rootEl)"
proof -
  let ?st = "\<lparr>nextN = 1, bNodes = [], bIndex = []\<rparr>"
  obtain rootNode st' where b:
    "buildNode rootEl None [getFeatureName rootEl] ?st = (rootNode, st')"
    by (cases "buildNode rootEl None [getFeatureName rootEl] ?st")
  have res: "nodes = bNodes st'" "r = nid rootNode"
    using assms b by (simp_all add: buildTreeFromKml_def)
  have "nextN ?st < nextN st'
     \<and> (\<exists>seg. bNodes st' = bNodes ?st @ seg
            \<and> builtSeg None [nextN ?st] (nextN ?st) (nextN st') seg
            \<and> mapGet seg (nextN ?st) = Some rootNode)
     \<and> nid rootNode = nextN ?st \<and> tag rootNode = tagName rootEl"
    by (rule build_segments(1) [OF _ b]) simp
  then have seg: "builtSeg None [r] r (nextN st') nodes" "mapGet nodes r = Some rootNode"
    "tag rootNode = tagName rootEl"
    by (auto simp: res)
  show ?thesis using builtSeg_wellFormed [OF seg(1)] seg(2,3) by simp
qed

lemma elementsByTagName_tag: "e \<in> set (elementsByTagName t x) \<Longrightarrow> tagName e = t"
  by (induction t x rule: elementsByTagName.induct) (auto split: if_splits)

lemma findRootFeature_tag:
  assumes "findRootFeature x = Some rootEl"
  shows "tagName rootEl = ''Document'' \<or> tagName rootEl = ''Folder''"
proof (cases "elementsByTagName ''Document'' x")
  case Nil
  then obtain rest where "elementsByTagName ''Folder'' x = rootEl # rest"
    using assms by (auto simp: findRootFeature_def split: list.splits)
  then have "rootEl \<in> set (elementsByTagName ''Folder'' x)" by simp
  then show ?thesis by (simp add: elementsByTagName_tag)
next
  case (Cons d rest)
  then have "rootEl \<in> set (elementsByTagName ''Document'' x)"
    using assms by (auto simp: findRootFeature_def)
  then show ?thesis by (simp add: elementsByTagName_tag)
qed

lemma sameShape_expandFolders: "sameShape nodes (expandFolders nodes)"
  by (auto simp: sameShape_def shapeAll_def expandFolders_def shapeOf_def)

lemma sameShape_rootIsFolder:
  assumes "sameShape a b" "rootIsFolder a r"
  shows "rootIsFolder b r"
proof -
  obtain n where n: "mapGet a r = Some n" "tag n \<noteq> ''Placemark''"
    using assms(2) by (auto simp: rootIsFolder_def split: option.splits)
  have "map_option shapeOf (mapGet b r) = Some (shapeOf n)"
    using sameShape_mapGet [OF assms(1), of r] n(1) by simp
  then obtain m where m: "mapGet b r = Some m" "shapeOf m = shapeOf n"
    by (cases "mapGet b r") auto
  have "tag m = tag n" using m(2) by (rule shapeOf_eqD)
  then show ?thesis using m(1) n(2) by (simp add: rootIsFolder_def)
qed

lemma allFresh_triState: "allFresh nodes \<Longrightarrow> triState nodes r"
  by (auto simp: allFresh_def triState_def list_all_iff)

lemma allFresh_expandFolders: "allFresh nodes \<Longrightarrow> allFresh (expandFolders nodes)"
  by (auto simp: allFresh_def expandFolders_def list_all_iff split: if_splits)

text \<open>The tree that a load installs.\<close>

lemma treeInstalled_tree:
  assumes "findRootFeature (parsed file) = Some rootEl"
  shows "\<exists>r. rootNodeId (treeInstalled file rootEl s) = Some r
           \<and> wellFormed (nodesById (treeInstalled file rootEl s)) r
           \<and> allFresh (nodesById (treeInstalled file rootEl s))
           \<and> rootIsFolder (nodesById (treeInstalled file rootEl s)) r"
proof -
  obtain nodes r pidx where b: "buildTreeFromKml rootEl = (nodes, r, pidx)"
    by (cases "buildTreeFromKml rootEl") auto
  have wf: "wellFormed nodes r" and fresh: "allFresh nodes"
    and root: "\<exists>n. mapGet nodes r = Some n \<and> tag n = tagName rootEl"
    using buildTreeFromKml_wellFormed [OF b] by simp_all
  have "rootIsFolder nodes r"
    using root findRootFeature_tag [OF assms] by (auto simp: rootIsFolder_def)
  then have "rootIsFolder (expandFolders nodes) r"
    using sameShape_rootIsFolder [OF sameShape_expandFolders] by blast
  moreover have "wellFormed (expandFolders nodes) r"
    using wf sameShape_wellFormed [OF sameShape_expandFolders] by blast
  ultimately show ?thesis
    using fresh by (simp add: treeInstalled_def b allFresh_expandFolders)
qed

text \<open>Every load returns; a load that succeeds leaves a fresh, well-formed tree.\<close>

lemma loadKml_returns: "\<exists>res. loadKml file s = Some res"
proof (cases "elementsByTagName ''parsererror'' (parsed file) = []")
  case False
  then show ?thesis by (simp add: loadKml_parse_error)
next
  case True
  note noerr = this
  show ?thesis
  proof (cases "findRootFeature (parsed file)")
    case None
    then show ?thesis using noerr by (simp add: loadKml_no_root)
  next
    case (Some rootEl)
    show ?thesis
    proof (cases "rendered file")
      case None
      then show ?thesis using noerr Some by (simp add: loadKml_rejected)
    next
      case (Some ents)
      let ?s = "rebuildPlacemarkToEntityMap
                  (rebuildEntityIndex ((treeInstalled file rootEl s)\<lparr>kmlDataSource := Some ents\<rparr>))"
      obtain r where "wellFormed (nodesById (treeInstalled file rootEl s)) r"
        using treeInstalled_tree [OF \<open>findRootFeature (parsed file) = Some rootEl\<close>] by blast
      then have "parentsBelow (nodesById ?s)"
        by (simp add: rebuildPlacemarkToEntityMap_frame rebuildEntityIndex_frame
            wellFormed_parentsBelow)
      then obtain s' where "applyVisibilityFromTree ?s = Some s'"
        using applyVisibilityFromTree_nodes by blast
      then show ?thesis
        using loadKml_rendered [OF noerr \<open>findRootFeature (parsed file) = Some rootEl\<close> Some, of s]
        by simp
    qed
  qed
qed

lemma loadKml_success:
  assumes "loadKml file s = Some (None, s')"
  shows "\<exists>r. rootNodeId s' = Some r \<and> wellFormed (nodesById s') r
           \<and> allFresh (nodesById s') \<and> rootIsFolder (nodesById s') r"
proof -
  have noerr: "elementsByTagName ''parsererror'' (parsed file) = []"
    using assms loadKml_parse_error [of "file" s] by (cases "elementsByTagName ''parsererror'' (parsed file) = []") auto
  obtain rootEl where root: "findRootFeature (parsed file) = Some rootEl"
    using assms noerr loadKml_no_root [of "file" s] by (cases "findRootFeature (parsed file)") auto
  obtain ents where ents: "rendered file = Some ents"
    using assms noerr root loadKml_rejected [of "file" rootEl s] by (cases "rendered file") auto
  let ?s = "rebuildPlacemarkToEntityMap
              (rebuildEntityIndex ((treeInstalled file rootEl s)\<lparr>kmlDataSource := Some ents\<rparr>))"
  have vis: "applyVisibilityFromTree ?s = Some s'"
    using assms loadKml_rendered [OF noerr root ents, of s] by auto
  obtain r where r: "rootNodeId (treeInstalled file rootEl s) = Some r"
    "wellFormed (nodesById (treeInstalled file rootEl s)) r"
    "allFresh (nodesById (treeInstalled file rootEl s))"
    "rootIsFolder (nodesById (treeInstalled file rootEl s)) r"
    using treeInstalled_tree [OF root] by blast
  have same: "nodesById ?s = nodesById (treeInstalled file rootEl s)"
    "rootNodeId ?s = rootNodeId (treeInstalled file rootEl s)"
    by (simp_all add: rebuildPlacemarkToEntityMap_frame rebuildEntityIndex_frame)
  have "parentsBelow (nodesById ?s)"
    using r(2) by (simp add: same wellFormed_parentsBelow)
  then have "nodesById s' = nodesById ?s \<and> rootNodeId s' = rootNodeId ?s"
    using applyVisibilityFromTree_nodes [of ?s] vis by auto
  then show ?thesis using r same by simp
qed

subsection \<open>Sequences of toggle operations\<close>

lemma setChecked_step:
  assumes "treeInv nodes r"
  shows "\<exists>nodes'. setCheckedRecursive i v nodes = Some nodes' \<and> treeInv nodes' r"
proof -
  let ?m = "markAll {j. reaches nodes i j} v nodes"
  have "setCheckedRecursive i v nodes = Some ?m"
    using assms setCheckedRecursive_wellFormed [of nodes r i v] by (simp add: treeInv_def)
  moreover have "treeInv ?m r"
    using assms sameShape_wellFormed [OF sameShape_markAll, of nodes r]
      sameShape_rootIsFolder [OF sameShape_markAll] markAll_triState
    by (simp add: treeInv_def)
  ultimately show ?thesis by blast
qed

lemma recompute_step:
  assumes "treeInv nodes r"
  shows "\<exists>nodes'. recomputeIndeterminateUp i nodes = Some nodes' \<and> treeInv nodes' r"
proof -
  have wf: "wellFormed nodes r" using assms by (simp add: treeInv_def)
  obtain nodes' where n: "recomputeIndeterminateUp i nodes = Some nodes'" "sameShape nodes nodes'"
    using recomputeIndeterminateUp_returns [OF wellFormed_parentsBelow [OF wf]] by blast
  have "triState nodes' r"
    using recomputeIndeterminateUp_triState [OF wf _ n(1)] assms by (simp add: treeInv_def)
  then have "treeInv nodes' r"
    using assms sameShape_wellFormed [OF n(2), of r] sameShape_rootIsFolder [OF n(2)]
    by (simp add: treeInv_def)
  then show ?thesis using n(1) by blast
qed

lemma uncheckRoot_step:
  assumes "treeInv nodes r"
  shows "treeInv (updateNode r (\<lambda>n. n\<lparr>checked := True, indeterminate := True\<rparr>) nodes) r"
proof -
  let ?u = "updateNode r (\<lambda>n. n\<lparr>checked := True, indeterminate := True\<rparr>) nodes"
  have wf: "wellFormed nodes r" and tri: "triState nodes r" and rf: "rootIsFolder nodes r"
    using assms by (simp_all add: treeInv_def)
  have ss: "sameShape nodes ?u"
    by (rule sameShape_updateNode) (simp add: shapeOf_def)
  have root_tag: "tag n \<noteq> ''Placemark''" if "(r, n) \<in> set nodes" for n
  proof -
    have "mapGet nodes r = Some n"
      using wf that by (auto simp: wellFormed_def intro: mapGet_distinct)
    then show ?thesis using rf by (simp add: rootIsFolder_def)
  qed
  have "triState ?u r"
    using tri root_tag by (auto simp: triState_def list_all_iff updateNode_def split: if_splits)
  then show ?thesis
    using wf rf sameShape_wellFormed [OF ss, of r] sameShape_rootIsFolder [OF ss]
    by (simp add: treeInv_def)
qed

lemma visibility_step:
  assumes "treeInv (nodesById s) r"
  shows "\<exists>s'. applyVisibilityFromTree s = Some s' \<and> nodesById s' = nodesById s
           \<and> rootNodeId s' = rootNodeId s"
  using assms applyVisibilityFromTree_nodes [of s]
  by (auto simp: treeInv_def wellFormed_parentsBelow)

lemma applyOp_treeInv:
  assumes "rootNodeId s = Some r" "treeInv (nodesById s) r"
  shows "\<exists>s'. applyOp t s = Some s' \<and> rootNodeId s' = Some r \<and> treeInv (nodesById s') r"
proof (cases t)
  case (SetCheckedRecursive i v)
  then show ?thesis using setChecked_step [OF assms(2), of i v] assms(1) by auto
next
  case (RecomputeIndeterminateUp i)
  then show ?thesis using recompute_step [OF assms(2), of i] assms(1) by auto
next
  case CheckAll
  obtain nodes' where n: "setCheckedRecursive r True (nodesById s) = Some nodes'" "treeInv nodes' r"
    using setChecked_step [OF assms(2)] by blast
  let ?s = "s\<lparr>nodesById := nodes', userHasInteracted := True\<rparr>"
  obtain s' where "applyVisibilityFromTree ?s = Some s'" "nodesById s' = nodes'"
    "rootNodeId s' = rootNodeId s"
    using visibility_step [of ?s r] n(2) by auto
  then show ?thesis using CheckAll assms(1) n by (simp add: checkAll_def)
next
  case UncheckAll
  obtain nodes' where n: "setCheckedRecursive r False (nodesById s) = Some nodes'" "treeInv nodes' r"
    using setChecked_step [OF assms(2)] by blast
  let ?u = "updateNode r (\<lambda>n. n\<lparr>checked := True, indeterminate := True\<rparr>) nodes'"
  let ?s = "s\<lparr>nodesById := ?u, userHasInteracted := True\<rparr>"
  have u: "treeInv ?u r" using n(2) by (rule uncheckRoot_step)
  obtain s' where "applyVisibilityFromTree ?s = Some s'" "nodesById s' = ?u"
    "rootNodeId s' = rootNodeId s"
    using visibility_step [of ?s r] u by auto
  then show ?thesis using UncheckAll assms(1) n(1) u by (simp add: uncheckAll_def)
next
  case (ToggleChecked i v)
  show ?thesis
  proof (cases "mapGet (nodesById s) i")
    case None
    then show ?thesis using ToggleChecked assms by (simp add: toggleChecked_def)
  next
    case (Some node)
    obtain nodes1 where n1: "setCheckedRecursive i v (nodesById s) = Some nodes1" "treeInv nodes1 r"
      using setChecked_step [OF assms(2)] by blast
    obtain nodes2 where n2:
      "(case parentId node of None \<Rightarrow> Some nodes1 | Some p \<Rightarrow> recomputeIndeterminateUp p nodes1)
         = Some nodes2" "treeInv nodes2 r"
      using recompute_step [OF n1(2)] n1(2) by (cases "parentId node") auto
    let ?s = "s\<lparr>nodesById := nodes2, userHasInteracted := True\<rparr>"
    obtain s' where "applyVisibilityFromTree ?s = Some s'" "nodesById s' = nodes2"
      "rootNodeId s' = rootNodeId s"
      using visibility_step [of ?s r] n2(2) by auto
    then show ?thesis
      using ToggleChecked Some assms(1) n1(1) n2 by (simp add: toggleChecked_def)
  qed
qed

lemma runOps_treeInv:
  "rootNodeId s = Some r \<Longrightarrow> treeInv (nodesById s) r \<Longrightarrow>
     \<exists>s'. runOps ts s = Some s' \<and> rootNodeId s' = Some r \<and> treeInv (nodesById s') r"
proof (induction ts arbitrary: s)
  case Nil
  then show ?case by simp
next
  case (Cons t ts)
  obtain s1 where s1: "applyOp t s = Some s1" "rootNodeId s1 = Some r" "treeInv (nodesById s1) r"
    using applyOp_treeInv [OF Cons.prems] by blast
  then show ?case using Cons.IH [OF s1(2,3)] by simp
qed

lemma loadKml_treeInv:
  assumes "loadKml file s0 = Some (None, s)"
  shows "\<exists>r. rootNodeId s = Some r \<and> treeInv (nodesById s) r"
  using loadKml_success [OF assms] by (auto simp: treeInv_def allFresh_triState)

lemma exFolderFile_loaded: "loadKml exFolderFile initialState = Some (None, exFolderLoaded)"
proof -
  let ?s4 = "(treeInstalled exFolderFile exFolder initialState)\<lparr>kmlDataSource := Some []\<rparr>"
  have s4: "?s4 = exFolderLoaded"
    by (simp add: treeInstalled_def exFolder_tree expandFolders_def initialState_def
        exFolderLoaded_def exFolderFile_def)
  have s5: "rebuildEntityIndex exFolderLoaded = exFolderLoaded"
    by (simp add: rebuildEntityIndex_def exFolderLoaded_def)
  have s6: "rebuildPlacemarkToEntityMap exFolderLoaded = exFolderLoaded"
    by (simp add: rebuildPlacemarkToEntityMap_empty_index exFolderLoaded_def)
  have s7: "applyVisibilityFromTree exFolderLoaded = Some exFolderLoaded"
    by (simp add: applyVisibilityFromTree_def exFolderLoaded_def entitiesOf_def Let_def
        rebuildPlacemarkToEntityMap_def)
  have "loadKml exFolderFile initialState =
       map_option (Pair None)
         (applyVisibilityFromTree (rebuildPlacemarkToEntityMap (rebuildEntityIndex ?s4)))"
    by (rule loadKml_rendered)
       (simp_all add: exFolderFile_def exFolder_def findRootFeature_def)
  then show ?thesis by (simp add: s4 s5 s6 s7)
qed

text \<open>
  C5, as the claim states it, fails: after the load of the document that is one empty
  folder, \<open>uncheckAll\<close> leaves the root, a folder without children, indeterminate.
\<close>

theorem childless_root_indeterminate:
  "\<exists>s' n. loadKml exFolderFile initialState = Some (None, exFolderLoaded)
        \<and> runOps [UncheckAll] exFolderLoaded = Some s'
        \<and> mapGet (nodesById s') 1 = Some n
        \<and> tag n = ''Folder'' \<and> children n = [] \<and> indeterminate n"
  by (simp add: exFolderFile_loaded)
     (simp add: uncheckAll_def exFolderLoaded_def setCheckedRecursive_def setCheckedEach.simps
       mapGet_def updateNode_def applyVisibilityFromTree_def entitiesOf_def Let_def
       rebuildPlacemarkToEntityMap_def)

text \<open>
  C5, amended.  After any sequence of the toggle operations on the tree of a load that
  succeeded, every operation has returned, every indeterminate node has
  \<open>checked = true\<close> and is not a placemark, and every indeterminate node other than the
  root has at least one child.
\<close>

theorem tri_state_after_toggles:
  assumes "loadKml file s0 = Some (None, s)"
  shows "\<exists>s' r. runOps ts s = Some s' \<and> rootNodeId s' = Some r
           \<and> (\<forall>(i, n)\<in>set (nodesById s').
                 indeterminate n \<longrightarrow>
                   checked n \<and> tag n \<noteq> ''Placemark'' \<and> (children n \<noteq> [] \<or> i = r))"
proof -
  obtain r where r: "rootNodeId s = Some r" "treeInv (nodesById s) r"
    using loadKml_treeInv [OF assms] by blast
  obtain s' where s': "runOps ts s = Some s'" "rootNodeId s' = Some r" "treeInv (nodesById s') r"
    using runOps_treeInv [OF r] by blast
  have "\<forall>(i, n)\<in>set (nodesById s').
          indeterminate n \<longrightarrow> checked n \<and> tag n \<noteq> ''Placemark'' \<and> (children n \<noteq> [] \<or> i = r)"
    using s'(3) by (auto simp: treeInv_def triState_def list_all_iff)
  then show ?thesis using s'(1,2) by blast
qed

theorem tri_state_after_toggles_witness:
  "loadKml exFile initialState = Some (None, exLoaded)
   \<and> (\<exists>s' r. runOps [UncheckAll, ToggleChecked 2 True] exLoaded = Some s'
           \<and> rootNodeId s' = Some r
           \<and> (\<forall>(i, n)\<in>set (nodesById s').
                 indeterminate n \<longrightarrow>
                   checked n \<and> tag n \<noteq> ''Placemark'' \<and> (children n \<noteq> [] \<or> i = r)))"
  by (rule conjI [OF exFile_loaded tri_state_after_toggles [OF exFile_loaded]])

subsection \<open>Colliding GeoKeys\<close>

lemma exTwinDoc_tree:
  "buildTreeFromKml exTwinDoc
     = (exTwinNodes, 1,
        [(''Site|1,2'', \<lparr>placemarkEl = exTwinB, path = [''Document'', ''Site'']\<rparr>)])"
  by (simp add: buildTreeFromKml_def exTwinDoc_def exTwinA_def exTwinB_def exTwinNodes_def
      getFeatureName_def getChildFeatures_def firstCoordFromPlacemark_def
      updateNode_def dedupe_def key_defs Let_def)

lemma exTwinNodes_collect: "collectEnabled exTwinNodes exTwinNodes [] = Some [''Site|1,2'']"
proof -
  have "getEffectiveChecked exTwinNodes 2 = Some True" "getEffectiveChecked exTwinNodes 3 = Some True"
    by (simp_all add: getEffectiveChecked_def exTwinNodes_def mapGet_def climbChecked.simps)
  then show ?thesis
    by (subst (2) exTwinNodes_def) (simp add: setAdd_def)
qed

lemma exTwinFile_loaded: "loadKml exTwinFile initialState = Some (None, exTwinLoaded)"
proof -
  let ?s4 = "(treeInstalled exTwinFile exTwinDoc initialState)\<lparr>kmlDataSource := Some [exPoint]\<rparr>"
  have e: "expandFolders exTwinNodes = exTwinNodes"
    by (simp add: expandFolders_def exTwinNodes_def)
  have s4: "?s4 = exTwinLoaded\<lparr>entityIndex := []\<rparr>"
    by (simp add: treeInstalled_def exTwinDoc_tree e initialState_def exTwinLoaded_def
        exTwinFile_def)
  have s5: "rebuildEntityIndex (exTwinLoaded\<lparr>entityIndex := []\<rparr>) = exTwinLoaded"
    by (simp add: rebuildEntityIndex_def indexEntity_def getOrEmpty_def mapGet_def exPoint_def
        firstCoordFromEntity_def key_defs exTwinLoaded_def)
  have s6: "rebuildPlacemarkToEntityMap exTwinLoaded = exTwinLoaded"
    by (simp add: rebuildPlacemarkToEntityMap_empty_index exTwinLoaded_def)
  have s7: "applyVisibilityFromTree exTwinLoaded = Some exTwinLoaded"
    by (simp add: applyVisibilityFromTree_def exTwinLoaded_def exTwinNodes_collect exPoint_def
        entitiesOf_def Let_def rebuildPlacemarkToEntityMap_def)
  have "loadKml exTwinFile initialState =
       map_option (Pair None)
         (applyVisibilityFromTree (rebuildPlacemarkToEntityMap (rebuildEntityIndex ?s4)))"
    by (rule loadKml_rendered)
       (simp_all add: exTwinFile_def exTwinDoc_def exTwinA_def exTwinB_def findRootFeature_def)
  then show ?thesis by (simp add: s4 s5 s6 s7)
qed

text \<open>
  C10.  The code at the failing input.  \<open>buildTreeFromKml\<close> returns a placemark index
  in which the colliding key holds the second placemark; \<open>loadKml\<close> does not store that
  index in the session, so the index that the reconciliation reads is empty and so is the
  map.  After \<open>uncheckAll\<close> neither colliding leaf is effectively checked and the user has
  interacted, and the entity of the two placemarks is shown.
\<close>

theorem colliding_leaves_unchecked_entity_shown:
  "\<exists>s'. snd (snd (buildTreeFromKml exTwinDoc))
          = [(''Site|1,2'', \<lparr>placemarkEl = exTwinB, path = [''Document'', ''Site'']\<rparr>)]
       \<and> loadKml exTwinFile initialState = Some (None, exTwinLoaded)
       \<and> placemarkIndex exTwinLoaded = []
       \<and> placemarkToEntity (withMap exTwinLoaded) = []
       \<and> uncheckAll exTwinLoaded = Some s'
       \<and> userHasInteracted s'
       \<and> getEffectiveChecked (nodesById s') 2 = Some False
       \<and> getEffectiveChecked (nodesById s') 3 = Some False
       \<and> map eshow (entitiesOf s') = [True]"
proof -
  let ?nodes = "updateNode 1 (\<lambda>n. n\<lparr>checked := True, indeterminate := True\<rparr>)
                  (markAll {1, 2, 3} False exTwinNodes)"
  let ?s = "exTwinLoaded\<lparr>nodesById := ?nodes, userHasInteracted := True\<rparr>"
  have sc: "setCheckedRecursive 1 False exTwinNodes = Some (markAll {1, 2, 3} False exTwinNodes)"
    by (simp add: setCheckedRecursive_def setCheckedEach.simps exTwinNodes_def mapGet_def
        updateNode_def markAll_def)
  have eff: "getEffectiveChecked ?nodes 2 = Some False" "getEffectiveChecked ?nodes 3 = Some False"
    by (simp_all add: getEffectiveChecked_def exTwinNodes_def mapGet_def updateNode_def
        markAll_def)
  have col: "collectEnabled ?nodes ?nodes [] = Some []"
    using eff by (subst (2) exTwinNodes_def) (simp add: markAll_def updateNode_def)
  have vis: "applyVisibilityFromTree ?s = Some ?s"
    using col
    by (simp add: applyVisibilityFromTree_def exTwinLoaded_def entitiesOf_def Let_def
        rebuildPlacemarkToEntityMap_def exPoint_def)
  have un: "uncheckAll exTwinLoaded = Some ?s"
    using sc vis by (simp add: uncheckAll_def exTwinLoaded_def)
  have "placemarkToEntity (withMap exTwinLoaded) = []"
    by (simp add: withMap_def exTwinLoaded_def rebuildPlacemarkToEntityMap_def)
  moreover have "map eshow (entitiesOf ?s) = [True]"
    by (simp add: entitiesOf_def exTwinLoaded_def exPoint_def)
  moreover have "placemarkIndex exTwinLoaded = []"
    by (simp add: exTwinLoaded_def)
  ultimately show ?thesis
    using un eff by (simp add: exTwinDoc_tree exTwinFile_loaded)
qed

subsection \<open>The authoritative branch\<close>

lemma showEnabled_map:
  "showEnabled m k ents
     = map (\<lambda>e. if eid e \<in> set (getOrEmpty m k) then e\<lparr>eshow := True\<rparr> else e) ents"
  by (simp add: showEnabled_def showEntities_def getOrEmpty_def split: option.splits)

lemma fold_showEnabled:
  "fold (showEnabled m) ks ents
     = map (\<lambda>e. if \<exists>k\<in>set ks. eid e \<in> set (getOrEmpty m k) then e\<lparr>eshow := True\<rparr> else e) ents"
  by (induction ks arbitrary: ents) (auto simp: showEnabled_map)

text \<open>
  Once the user has interacted and the map is not empty, an entity is shown exactly
  when some effectively checked placemark node has a key under which the map lists it.
\<close>

lemma authoritative_projection:
  assumes "sessionOk s" "kmlDataSource s = Some ents"
    and "placemarkToEntity (withMap s) \<noteq> []" "userHasInteracted s"
  shows "\<exists>s'. applyVisibilityFromTree s = Some s'
           \<and> entitiesOf s'
               = map (\<lambda>e. applyLabels (hideLabels s)
                       (e\<lparr>eshow :=
                           (\<exists>(i, n)\<in>set (nodesById s).
                              tag n = ''Placemark'' \<and> effective (nodesById s) (nid n)
                              \<and> (\<exists>k\<in>set (placemarkKeys n).
                                    eid e \<in> set (getOrEmpty (placemarkToEntity (withMap s)) k)))\<rparr>))
                   ents"
proof -
  obtain ks where ks:
    "set ks = {k. \<exists>(i, n)\<in>set (nodesById s). tag n = ''Placemark''
                    \<and> k \<in> set (placemarkKeys n) \<and> effective (nodesById s) (nid n)}"
    "applyVisibilityFromTree s = Some ((withMap s)\<lparr>kmlDataSource := Some (projected s ks ents)\<rparr>)"
    using applyVisibilityFromTree_returns [OF sessionOk_parentsBelow [OF assms(1)] assms(2)]
    by blast
  have "(\<exists>k\<in>set ks. x \<in> set (getOrEmpty (placemarkToEntity (withMap s)) k)) \<longleftrightarrow>
        (\<exists>(i, n)\<in>set (nodesById s). tag n = ''Placemark'' \<and> effective (nodesById s) (nid n)
            \<and> (\<exists>k\<in>set (placemarkKeys n). x \<in> set (getOrEmpty (placemarkToEntity (withMap s)) k)))"
    for x
    unfolding ks(1) by blast
  then have "projected s ks ents
      = map (\<lambda>e. applyLabels (hideLabels s)
               (e\<lparr>eshow :=
                   (\<exists>(i, n)\<in>set (nodesById s).
                      tag n = ''Placemark'' \<and> effective (nodesById s) (nid n)
                      \<and> (\<exists>k\<in>set (placemarkKeys n).
                            eid e \<in> set (getOrEmpty (placemarkToEntity (withMap s)) k)))\<rparr>))
           ents"
    using assms(3,4) by (simp add: projected_def fold_showEnabled)
  then show ?thesis using ks(2) by (simp add: entitiesOf_def)
qed

lemma exTripleDoc_tree: "buildTreeFromKml exTripleDoc = (exTripleNodes, 1, exTripleIndex)"
  by (simp add: buildTreeFromKml_def exTripleDoc_def exTwinA_def exTwinB_def exSiteBare_def
      exTripleNodes_def exTripleIndex_def getFeatureName_def getChildFeatures_def
      firstCoordFromPlacemark_def updateNode_def dedupe_def key_defs Let_def)

lemma exTripleSession_eq:
  "exTripleSession =
     initialState\<lparr>nodesById := exTripleNodes, rootNodeId := Some 1,
       placemarkIndex := exTripleIndex, kmlDataSource := Some [exPolygon],
       entityIndex := [(''Site'', [7])],
       placemarkToEntity := [(''Site|1,2'', [7]), (''Site'', [7])]\<rparr>"
  by (simp add: exTripleSession_def initialState_def exTripleIndex_def exPolygon_def
      exTwinB_def exSiteBare_def reconcile_defs key_defs Let_def)

text \<open>
  With the placemark index handed to the reconciliation, the defect of the fallback lists
  the entity under the colliding key and under a second key; with both colliding leaves
  unchecked the authoritative branch shows it, through the second key.
\<close>

lemma shared_instance_shown:
  "\<exists>s'. runOps [ToggleChecked 2 False, ToggleChecked 3 False] exTripleSession = Some s'
       \<and> placemarkToEntity s' = [(''Site|1,2'', [7]), (''Site'', [7])]
       \<and> userHasInteracted s'
       \<and> getEffectiveChecked (nodesById s') 2 = Some False
       \<and> getEffectiveChecked (nodesById s') 3 = Some False
       \<and> map eshow (entitiesOf s') = [True]"
  by (simp add: exTripleSession_eq initialState_def exTripleNodes_def exPolygon_def
      toggleChecked_def setCheckedRecursive_def setCheckedEach.simps
      recomputeIndeterminateUp.simps recomputeNode_def childStates_def
      applyVisibilityFromTree_def getEffectiveChecked_def climbChecked.simps
      showEnabled_def showEntities_def applyLabels_def setAdd_def entitiesOf_def
      mapGet_def updateNode_def Let_def)

subsection \<open>Every session that can be reached has a well-formed tree\<close>

lemma sessionInv_sessionOk: "sessionInv s \<Longrightarrow> sessionOk s"
  by (auto simp: sessionInv_def sessionOk_def treeInv_def split: option.splits)

lemma loadKml_failed_state:
  assumes "loadKml file s = Some (Some err, s')"
  shows "s' = s \<or> (\<exists>rootEl. findRootFeature (parsed file) = Some rootEl
                      \<and> s' = treeInstalled file rootEl s)"
proof (cases "elementsByTagName ''parsererror'' (parsed file) = []")
  case False
  then show ?thesis using assms by (simp add: loadKml_parse_error)
next
  case True
  show ?thesis
  proof (cases "findRootFeature (parsed file)")
    case None
    then show ?thesis using assms True by (simp add: loadKml_no_root)
  next
    case (Some rootEl)
    show ?thesis
    proof (cases "rendered file")
      case None
      then show ?thesis using assms True Some by (simp add: loadKml_rejected)
    next
      case (Some ents)
      then show ?thesis
        using assms True loadKml_rendered [OF True \<open>findRootFeature (parsed file) = Some rootEl\<close> Some, of s]
        by auto
    qed
  qed
qed

lemma setCheckedRecursive_absent:
  "mapGet nodes i = None \<Longrightarrow> setCheckedRecursive i v nodes = Some nodes"
  by (simp add: setCheckedRecursive_def setCheckedEach.simps)

lemma recomputeIndeterminateUp_absent:
  "mapGet nodes i = None \<Longrightarrow> recomputeIndeterminateUp i nodes = Some nodes"
  by (simp add: recomputeIndeterminateUp.simps)

lemma applyOp_empty:
  assumes "rootNodeId s = None" "nodesById s = []"
  shows "\<exists>s'. applyOp t s = Some s' \<and> rootNodeId s' = None \<and> nodesById s' = []"
proof (cases t)
  case (SetCheckedRecursive i v)
  then show ?thesis
    using assms setCheckedRecursive_absent [of "nodesById s" i v] by (simp add: mapGet_def)
next
  case (RecomputeIndeterminateUp i)
  then show ?thesis
    using assms recomputeIndeterminateUp_absent [of "nodesById s" i] by (simp add: mapGet_def)
next
  case CheckAll
  then show ?thesis using assms by (simp add: checkAll_def)
next
  case UncheckAll
  then show ?thesis using assms by (simp add: uncheckAll_def)
next
  case (ToggleChecked i v)
  then show ?thesis using assms by (simp add: toggleChecked_def mapGet_def)
qed

lemma reachable_sessionInv: "reachable s \<Longrightarrow> sessionInv s"
proof (induction rule: reachable.induct)
  case start
  show ?case by (simp add: sessionInv_def initialState_def)
next
  case (load s f res s')
  show ?case
  proof (cases res)
    case None
    then show ?thesis
      using loadKml_treeInv [of f s s'] load.hyps(2) by (auto simp: sessionInv_def)
  next
    case (Some err)
    then consider "s' = s"
      | rootEl where "findRootFeature (parsed f) = Some rootEl" "s' = treeInstalled f rootEl s"
      using loadKml_failed_state [of f s err s'] load.hyps(2) by auto
    then show ?thesis
    proof cases
      case 1
      then show ?thesis using load.IH by simp
    next
      case 2
      then show ?thesis
        using treeInstalled_tree [OF 2(1), of s]
        by (auto simp: sessionInv_def treeInv_def allFresh_triState)
    qed
  qed
next
  case (toggle s t s')
  show ?case
  proof (cases "rootNodeId s")
    case None
    then show ?thesis
      using applyOp_empty [of s t] toggle by (auto simp: sessionInv_def)
  next
    case (Some r)
    then show ?thesis
      using applyOp_treeInv [OF Some, of t] toggle by (auto simp: sessionInv_def)
  qed
next
  case (labels s v s')
  let ?s = "s\<lparr>hideLabels := v\<rparr>"
  have "sessionOk ?s"
    using sessionInv_sessionOk [OF labels.IH] by (auto simp: sessionOk_def split: option.splits)
  then have "nodesById s' = nodesById s \<and> rootNodeId s' = rootNodeId s"
    using applyVisibilityFromTree_nodes [OF sessionOk_parentsBelow, of ?s] labels.hyps(2)
    by (auto simp: hideLabelsChanged_def)
  then show ?case using labels.IH by (auto simp: sessionInv_def split: option.splits)
qed

lemma reachable_sessionOk: "reachable s \<Longrightarrow> sessionOk s"
  by (rule sessionInv_sessionOk [OF reachable_sessionInv])

subsection \<open>The placemark index of a reachable session\<close>

lemma applyVisibilityFromTree_maps:
  assumes "parentsBelow (nodesById s)" "applyVisibilityFromTree s = Some s'"
  shows "placemarkIndex s' = placemarkIndex s"
    and "placemarkToEntity s' = placemarkToEntity (withMap s)"
proof -
  have "placemarkIndex s' = placemarkIndex s \<and> placemarkToEntity s' = placemarkToEntity (withMap s)"
  proof (cases "kmlDataSource s")
    case None
    then have "s' = s" using assms(2) by (simp add: applyVisibilityFromTree_None)
    then show ?thesis
      using None by (simp add: withMap_def rebuildPlacemarkToEntityMap_def)
  next
    case (Some ents)
    then show ?thesis
      using applyVisibilityFromTree_returns [OF assms(1) Some] assms(2)
      by (auto simp: withMap_frame)
  qed
  then show "placemarkIndex s' = placemarkIndex s"
    and "placemarkToEntity s' = placemarkToEntity (withMap s)"
    by simp_all
qed

lemma withMap_empty_index:
  "placemarkIndex s = [] \<Longrightarrow> placemarkToEntity s = [] \<Longrightarrow> placemarkToEntity (withMap s) = []"
  by (simp add: withMap_def rebuildPlacemarkToEntityMap_empty_index)

lemma projection_unmapped:
  assumes "sessionOk s" "unmapped s" "applyVisibilityFromTree s = Some s'"
  shows "unmapped s'"
  using applyVisibilityFromTree_maps [OF sessionOk_parentsBelow [OF assms(1)] assms(3)] assms(2)
  by (simp add: unmapped_def withMap_empty_index)

lemma treeInstalled_unmapped: "unmapped s \<Longrightarrow> unmapped (treeInstalled file rootEl s)"
  by (simp add: unmapped_def treeInstalled_frame)

lemma loadKml_unmapped:
  assumes "loadKml file s = Some (res, s')" "unmapped s"
  shows "unmapped s'"
proof (cases res)
  case (Some err)
  then show ?thesis
    using loadKml_failed_state [of "file" s err s'] assms treeInstalled_unmapped by auto
next
  case None
  have noerr: "elementsByTagName ''parsererror'' (parsed file) = []"
    using assms(1) None loadKml_parse_error [of "file" s]
    by (cases "elementsByTagName ''parsererror'' (parsed file) = []") auto
  obtain rootEl where root: "findRootFeature (parsed file) = Some rootEl"
    using assms(1) None noerr loadKml_no_root [of "file" s]
    by (cases "findRootFeature (parsed file)") auto
  obtain ents where ents: "rendered file = Some ents"
    using assms(1) None noerr root loadKml_rejected [of "file" rootEl s]
    by (cases "rendered file") auto
  let ?s = "rebuildPlacemarkToEntityMap
              (rebuildEntityIndex ((treeInstalled file rootEl s)\<lparr>kmlDataSource := Some ents\<rparr>))"
  have vis: "applyVisibilityFromTree ?s = Some s'"
    using assms(1) None loadKml_rendered [OF noerr root ents, of s] by auto
  have idx: "placemarkIndex ?s = []"
    using assms(2)
    by (simp add: rebuildPlacemarkToEntityMap_frame rebuildEntityIndex_frame treeInstalled_frame
        unmapped_def)
  have "rebuildPlacemarkToEntityMap
          (rebuildEntityIndex ((treeInstalled file rootEl s)\<lparr>kmlDataSource := Some ents\<rparr>))
        = (rebuildEntityIndex ((treeInstalled file rootEl s)\<lparr>kmlDataSource := Some ents\<rparr>))
            \<lparr>placemarkToEntity := []\<rparr>"
    using assms(2)
    by (intro rebuildPlacemarkToEntityMap_empty_index)
       (simp add: rebuildEntityIndex_frame treeInstalled_frame unmapped_def)
  then have un: "unmapped ?s" using idx by (simp add: unmapped_def)
  obtain r where "wellFormed (nodesById (treeInstalled file rootEl s)) r"
    "rootNodeId (treeInstalled file rootEl s) = Some r"
    using treeInstalled_tree [OF root] by blast
  then have "sessionOk ?s"
    by (simp add: sessionOk_def rebuildPlacemarkToEntityMap_frame rebuildEntityIndex_frame)
  then show ?thesis using projection_unmapped [OF _ un vis] by simp
qed

lemma applyOp_unmapped:
  assumes "sessionInv s" "unmapped s" "applyOp t s = Some s'"
  shows "unmapped s'"
proof (cases "rootNodeId s")
  case None
  then have "nodesById s = []" using assms(1) by (simp add: sessionInv_def)
  then have "\<exists>s''. applyOp t s = Some s'' \<and> unmapped s''"
    using None assms(2)
    by (cases t)
       (auto simp: checkAll_def uncheckAll_def toggleChecked_def mapGet_def unmapped_def
          setCheckedRecursive_absent recomputeIndeterminateUp_absent)
  then show ?thesis using assms(3) by auto
next
  case (Some r)
  then have inv: "treeInv (nodesById s) r" using assms(1) by (simp add: sessionInv_def)
  have vis: "unmapped s2" if "applyVisibilityFromTree s1 = Some s2" "treeInv (nodesById s1) r"
    "rootNodeId s1 = Some r" "unmapped s1" for s1 s2
  proof -
    have ok: "sessionOk s1" using that(2,3) by (simp add: sessionOk_def treeInv_def)
    show ?thesis by (rule projection_unmapped [OF ok that(4) that(1)])
  qed
  show ?thesis
  proof (cases t)
    case (SetCheckedRecursive i v)
    then show ?thesis using assms(2,3) by (auto simp: unmapped_def)
  next
    case (RecomputeIndeterminateUp i)
    then show ?thesis using assms(2,3) by (auto simp: unmapped_def)
  next
    case CheckAll
    obtain nodes' where n: "setCheckedRecursive r True (nodesById s) = Some nodes'" "treeInv nodes' r"
      using setChecked_step [OF inv] by blast
    show ?thesis
      using CheckAll assms(2,3) Some n
        vis [of "s\<lparr>nodesById := nodes', userHasInteracted := True\<rparr>" s']
      by (simp add: checkAll_def unmapped_def)
  next
    case UncheckAll
    obtain nodes' where n: "setCheckedRecursive r False (nodesById s) = Some nodes'" "treeInv nodes' r"
      using setChecked_step [OF inv] by blast
    let ?u = "updateNode r (\<lambda>n. n\<lparr>checked := True, indeterminate := True\<rparr>) nodes'"
    have u: "treeInv ?u r" using n(2) by (rule uncheckRoot_step)
    show ?thesis
      using UncheckAll assms(2,3) Some n(1) u
        vis [of "s\<lparr>nodesById := ?u, userHasInteracted := True\<rparr>" s']
      by (simp add: uncheckAll_def unmapped_def)
  next
    case (ToggleChecked i v)
    show ?thesis
    proof (cases "mapGet (nodesById s) i")
      case None
      then show ?thesis using ToggleChecked assms(2,3) by (simp add: toggleChecked_def)
    next
      case (Some node)
      obtain nodes1 where n1: "setCheckedRecursive i v (nodesById s) = Some nodes1" "treeInv nodes1 r"
        using setChecked_step [OF inv] by blast
      obtain nodes2 where n2:
        "(case parentId node of None \<Rightarrow> Some nodes1 | Some p \<Rightarrow> recomputeIndeterminateUp p nodes1)
           = Some nodes2" "treeInv nodes2 r"
        using recompute_step [OF n1(2)] n1(2) by (cases "parentId node") auto
      show ?thesis
        using ToggleChecked assms(2,3) Some \<open>rootNodeId s = Some r\<close> n1(1) n2
          vis [of "s\<lparr>nodesById := nodes2, userHasInteracted := True\<rparr>" s']
        by (simp add: toggleChecked_def unmapped_def)
    qed
  qed
qed

text \<open>
  No operation stores a placemark index: \<open>loadKml\<close> takes the arena and the root id
  from the result of \<open>buildTreeFromKml\<close> and leaves the index aside. In every session
  that can be reached the index that the reconciliation reads is therefore empty, and
  so is the map.
\<close>

lemma reachable_unmapped: "reachable s \<Longrightarrow> unmapped s"
proof (induction rule: reachable.induct)
  case start
  show ?case by (simp add: unmapped_def initialState_def)
next
  case (load s f res s')
  then show ?case using loadKml_unmapped by blast
next
  case (toggle s t s')
  then show ?case using applyOp_unmapped [OF reachable_sessionInv] by blast
next
  case (labels s v s')
  have "sessionOk (s\<lparr>hideLabels := v\<rparr>)"
    using reachable_sessionOk [OF labels.hyps(1)] by (auto simp: sessionOk_def split: option.splits)
  moreover have "unmapped (s\<lparr>hideLabels := v\<rparr>)" using labels.IH by (simp add: unmapped_def)
  ultimately show ?case
    using labels.hyps(2) projection_unmapped by (auto simp: hideLabelsChanged_def)
qed

text \<open>
  Hence in every session that can be reached the projection takes the branch of the
  empty map: it shows every entity, whatever is checked, and leaves the flags of the
  labels and billboards as they are.
\<close>

lemma reachable_projection:
  assumes "reachable s"
  shows "\<exists>s'. applyVisibilityFromTree s = Some s'
           \<and> map eid (entitiesOf s') = map eid (entitiesOf s)
           \<and> (\<forall>e\<in>set (entitiesOf s'). eshow e)
           \<and> map labelShow (entitiesOf s') = map labelShow (entitiesOf s)
           \<and> map billboardShow (entitiesOf s') = map billboardShow (entitiesOf s)"
proof (cases "kmlDataSource s")
  case None
  then show ?thesis by (simp add: applyVisibilityFromTree_None entitiesOf_def)
next
  case (Some ents)
  have empty: "placemarkToEntity (withMap s) = []"
    using reachable_unmapped [OF assms] by (simp add: unmapped_def withMap_empty_index)
  obtain ks where
    "applyVisibilityFromTree s = Some ((withMap s)\<lparr>kmlDataSource := Some (projected s ks ents)\<rparr>)"
    using applyVisibilityFromTree_returns
      [OF sessionOk_parentsBelow [OF reachable_sessionOk [OF assms]] Some] by blast
  moreover have "projected s ks ents = map (\<lambda>e. e\<lparr>eshow := True\<rparr>) ents"
    using empty by (simp add: projected_def)
  ultimately show ?thesis using Some by (auto simp: entitiesOf_def comp_def)
qed

end
